theory Spec2Isabelle
  imports Main "HOL-Library.Word" "HOL-Library.Char_ord" "HOL-Library.List_Lexorder"
begin

section \<open>MiniGit: the object store, the staging index and the commit log\<close>

text \<open>
  A shallow embedding of \<^verbatim>\<open>minigit.cpp\<close> and \<^verbatim>\<open>main.cpp\<close>.  Every function of
  the source that touches the disk takes the file system as an argument and returns the
  new one; a \<^verbatim>\<open>throw\<close> is a value \<open>Inl e\<close>; what is printed is a list of events.
\<close>

subsection \<open>The file system the program runs on\<close>

text \<open>
  A path is the string handed to \<^verbatim>\<open>std::filesystem\<close>.  The model keeps one node per path
  string: two spellings of one file (\<^verbatim>\<open>a\<close> and \<^verbatim>\<open>./a\<close>, links) are different paths
  here.  \<open>can_read\<close> and \<open>can_write\<close> say whether opening the path with
  \<^verbatim>\<open>std::ifstream\<close> or \<^verbatim>\<open>std::ofstream\<close> succeeds (permissions, a missing parent
  directory); they decide the \<^verbatim>\<open>is_open()\<close> tests of the source.  Opening a directory
  is taken to fail, and writing to a stream that is open to succeed (the source never
  tests a stream after writing to it).  \<open>can_stat\<close> says whether the system can tell the
  status of the path at all: it cannot for a name longer than the system allows, or
  under a directory that may not be searched.
\<close>

datatype node = Missing | Directory | File string

record filesystem =
  node :: "string \<Rightarrow> node"
  can_read :: "string \<Rightarrow> bool"
  can_write :: "string \<Rightarrow> bool"
  can_stat :: "string \<Rightarrow> bool"

datatype error =
    CouldNotOpen string
  | CouldNotWrite string
  | CannotFindCommit string
  | FilesystemError string

text \<open>\<^verbatim>\<open>fs::exists\<close>: the empty path never exists.\<close>

definition fs_exists :: "filesystem \<Rightarrow> string \<Rightarrow> bool" where
  "fs_exists fs p = (p \<noteq> [] \<and> node fs p \<noteq> Missing)"

definition is_directory :: "filesystem \<Rightarrow> string \<Rightarrow> bool" where
  "is_directory fs p = (p \<noteq> [] \<and> node fs p = Directory)"

text \<open>
  The source calls \<^verbatim>\<open>fs::exists\<close> and \<^verbatim>\<open>fs::is_directory\<close> in the form that throws
  \<^verbatim>\<open>filesystem_error\<close> when the status of the path cannot be told (the empty path is
  just not found).  \<^verbatim>\<open>add\<close> asks about the names it is given, which may be anything, and
  about the object paths it writes to: there the model raises when \<open>status_error\<close> holds,
  and answers with \<open>fs_exists\<close> and \<open>is_directory\<close> otherwise.  The questions about
  \<^verbatim>\<open>.minigit\<close>, \<^verbatim>\<open>HEAD\<close> and \<^verbatim>\<open>index\<close>, and those of \<^verbatim>\<open>log\<close> and \<^verbatim>\<open>getCommitFiles\<close> about
  the commit objects that \<^verbatim>\<open>HEAD\<close> and the parent lines name, are taken to be answered.
\<close>

definition status_error :: "filesystem \<Rightarrow> string \<Rightarrow> bool" where
  "status_error fs p = (p \<noteq> [] \<and> \<not> can_stat fs p)"

text \<open>Whether \<^verbatim>\<open>std::ifstream file(p)\<close> and \<^verbatim>\<open>std::ofstream file(p)\<close> come out open.\<close>

definition ifstream_open :: "filesystem \<Rightarrow> string \<Rightarrow> string option" where
  "ifstream_open fs p =
     (case node fs p of
        File content \<Rightarrow> if p \<noteq> [] \<and> can_read fs p then Some content else None
      | _ \<Rightarrow> None)"

definition ofstream_open :: "filesystem \<Rightarrow> string \<Rightarrow> bool" where
  "ofstream_open fs p = (p \<noteq> [] \<and> node fs p \<noteq> Directory \<and> can_write fs p)"

definition put_file :: "filesystem \<Rightarrow> string \<Rightarrow> string \<Rightarrow> filesystem" where
  "put_file fs p content = fs\<lparr>node := (node fs)(p := File content)\<rparr>"

text \<open>\<^verbatim>\<open>operator/\<close> of \<^verbatim>\<open>std::filesystem::path\<close> on POSIX paths.\<close>

definition path_append :: "string \<Rightarrow> string \<Rightarrow> string" where
  "path_append p q =
     (if q \<noteq> [] \<and> hd q = CHR ''/'' then q
      else if p = [] \<or> last p = CHR ''/'' then p @ q
      else p @ ''/'' @ q)"

definition GIT_DIR :: string where
  "GIT_DIR = ''.minigit''"

definition OBJECTS_DIR :: string where
  "OBJECTS_DIR = path_append GIT_DIR ''objects''"

definition HEAD_FILE :: string where
  "HEAD_FILE = path_append GIT_DIR ''HEAD''"

definition INDEX_FILE :: string where
  "INDEX_FILE = path_append GIT_DIR ''index''"

subsection \<open>Helper functions of the source\<close>

definition repoExists :: "filesystem \<Rightarrow> bool" where
  "repoExists fs = (fs_exists fs GIT_DIR \<and> is_directory fs GIT_DIR)"

definition readFileContent :: "filesystem \<Rightarrow> string \<Rightarrow> error + string" where
  "readFileContent fs filename =
     (case ifstream_open fs filename of
        None \<Rightarrow> Inl (CouldNotOpen filename)
      | Some content \<Rightarrow> Inr content)"

definition writeFileContent :: "filesystem \<Rightarrow> string \<Rightarrow> string \<Rightarrow> error + filesystem" where
  "writeFileContent fs filepath content =
     (if \<not> ofstream_open fs filepath then Inl (CouldNotWrite filepath)
      else Inr (put_file fs filepath content))"

text \<open>
  \<^verbatim>\<open>hashString\<close>: the value of \<^verbatim>\<open>std::hash<std::string>\<close> is a \<^verbatim>\<open>size_t\<close>, printed
  with \<^verbatim>\<open>std::hex\<close>: lower-case digits, no prefix, no leading zero, \<^verbatim>\<open>0\<close> for zero.
  The hash function of the standard library is a parameter \<open>hasher\<close> of the model.
\<close>

definition hex_digit :: "nat \<Rightarrow> char" where
  "hex_digit d = ''0123456789abcdef'' ! d"

function hex_of_nat :: "nat \<Rightarrow> string" where
  "hex_of_nat n = (if n < 16 then [hex_digit n] else hex_of_nat (n div 16) @ [hex_digit (n mod 16)])"
  by pat_completeness auto
termination
  by (relation "measure id") auto

declare hex_of_nat.simps [simp del]

definition hashString :: "(string \<Rightarrow> 'w::len word) \<Rightarrow> string \<Rightarrow> string" where
  "hashString hasher content = hex_of_nat (unat (hasher content))"

subsection \<open>\<^verbatim>\<open>std::map<std::string, std::string>\<close>\<close>

text \<open>
  A \<^verbatim>\<open>std::map\<close> is kept as the list of its entries in the order its iterator visits
  them: strictly increasing keys, strings compared byte by byte.  \<open>map_put\<close> is
  \<^verbatim>\<open>m[k] = v\<close>.
\<close>

type_synonym smap = "(string \<times> string) list"

fun map_put :: "'k::linorder \<Rightarrow> 'v \<Rightarrow> ('k \<times> 'v) list \<Rightarrow> ('k \<times> 'v) list" where
  "map_put k v [] = [(k, v)]"
| "map_put k v ((k', v') # m) =
     (if k < k' then (k, v) # (k', v') # m
      else if k = k' then (k, v) # m
      else (k', v') # map_put k v m)"

definition is_map :: "('k::linorder \<times> 'v) list \<Rightarrow> bool" where
  "is_map m = sorted_wrt (<) (map fst m)"

subsection \<open>Reading text: \<^verbatim>\<open>std::getline\<close> and \<^verbatim>\<open>operator>>\<close>\<close>

definition newline :: char where
  "newline = CHR 0x0A"

text \<open>
  The lines a \<^verbatim>\<open>while (std::getline(ss, line))\<close> loop sees: a line ends at a newline
  or at the end of the text, and the read fails once nothing is left.
\<close>

fun getlines_from :: "string \<Rightarrow> string \<Rightarrow> string list" where
  "getlines_from line [] = (if line = [] then [] else [line])"
| "getlines_from line (c # cs) =
     (if c = newline then line # getlines_from [] cs else getlines_from (line @ [c]) cs)"

definition getlines :: "string \<Rightarrow> string list" where
  "getlines text = getlines_from [] text"

text \<open>\<^verbatim>\<open>isspace\<close> in the C locale: space, and the controls 9 to 13.\<close>

definition isspace :: "char \<Rightarrow> bool" where
  "isspace c = (let n = (of_char c :: nat) in n = 32 \<or> (9 \<le> n \<and> n \<le> 13))"

text \<open>
  \<^verbatim>\<open>ss >> word\<close> for a \<^verbatim>\<open>std::string\<close>: skip white space, take the characters up to
  the next white space; the read fails when no character is taken.  The result is the
  word and the rest of the stream.
\<close>

definition extract_word :: "string \<Rightarrow> (string \<times> string) option" where
  "extract_word s =
     (let s' = dropWhile isspace s;
          w = takeWhile (\<lambda>c. \<not> isspace c) s'
      in if w = [] then None else Some (w, dropWhile (\<lambda>c. \<not> isspace c) s'))"

text \<open>\<^verbatim>\<open>ss >> filename >> hash\<close> as a condition.\<close>

definition extract_pair :: "string \<Rightarrow> (string \<times> string) option" where
  "extract_pair s =
     (case extract_word s of
        None \<Rightarrow> None
      | Some (filename, rest) \<Rightarrow>
          (case extract_word rest of
             None \<Rightarrow> None
           | Some (hash, _) \<Rightarrow> Some (filename, hash)))"

text \<open>\<^verbatim>\<open>line.rfind(prefix, 0) == 0\<close>.\<close>

definition starts_with :: "string \<Rightarrow> string \<Rightarrow> bool" where
  "starts_with pre line = (take (length pre) line = pre)"

subsection \<open>The staging index and HEAD\<close>

definition index_line :: "string \<Rightarrow> smap \<Rightarrow> smap" where
  "index_line line stagedFiles =
     (case extract_pair line of
        Some (filename, hash) \<Rightarrow> map_put filename hash stagedFiles
      | None \<Rightarrow> stagedFiles)"

definition getStagingArea :: "filesystem \<Rightarrow> smap" where
  "getStagingArea fs =
     (if \<not> fs_exists fs INDEX_FILE then []
      else case ifstream_open fs INDEX_FILE of
             None \<Rightarrow> []
           | Some text \<Rightarrow> fold index_line (getlines text) [])"

definition index_text :: "smap \<Rightarrow> string" where
  "index_text stagedFiles =
     fold (\<lambda>(filename, hash) out. out @ filename @ '' '' @ hash @ [newline]) stagedFiles []"

text \<open>The \<^verbatim>\<open>std::ofstream\<close> of \<^verbatim>\<open>setStagingArea\<close> is not tested: when it does not open,
  nothing is written and nothing is raised.\<close>

definition setStagingArea :: "filesystem \<Rightarrow> smap \<Rightarrow> filesystem" where
  "setStagingArea fs stagedFiles =
     (if ofstream_open fs INDEX_FILE then put_file fs INDEX_FILE (index_text stagedFiles)
      else fs)"

definition getHEAD :: "filesystem \<Rightarrow> error + string" where
  "getHEAD fs = (if \<not> fs_exists fs HEAD_FILE then Inr [] else readFileContent fs HEAD_FILE)"

definition setHEAD :: "filesystem \<Rightarrow> string \<Rightarrow> error + filesystem" where
  "setHEAD fs commitHash = writeFileContent fs HEAD_FILE commitHash"

subsection \<open>Commit objects\<close>

definition commit_file_line :: "string \<Rightarrow> smap \<Rightarrow> smap" where
  "commit_file_line line files =
     (if starts_with ''file: '' line
      then (case extract_pair (drop 6 line) of
              Some (filename, hash) \<Rightarrow> map_put filename hash files
            | None \<Rightarrow> files)
      else files)"

definition getCommitFiles :: "filesystem \<Rightarrow> string \<Rightarrow> error + smap" where
  "getCommitFiles fs commitHash =
     (if commitHash = [] then Inr []
      else let commitPath = path_append OBJECTS_DIR commitHash in
        if \<not> fs_exists fs commitPath then Inl (CannotFindCommit commitHash)
        else case readFileContent fs commitPath of
               Inl e \<Rightarrow> Inl e
             | Inr text \<Rightarrow> Inr (fold commit_file_line (getlines text) []))"

text \<open>The text \<^verbatim>\<open>commit\<close> builds in its \<^verbatim>\<open>std::stringstream\<close>.\<close>

definition commitString :: "string \<Rightarrow> string \<Rightarrow> smap \<Rightarrow> string" where
  "commitString parentCommit message commitFiles =
     fold (\<lambda>(filename, hash) out. out @ ''file: '' @ filename @ '' '' @ hash @ [newline])
       commitFiles
       ((''parent: '' @ parentCommit @ [newline]) @ ''message: '' @ message @ [newline])"

subsection \<open>What the program prints\<close>

datatype event =
    AlreadyInitialized
  | Initialized
  | FileNotFound string
  | CannotAddDirectory string
  | Staged string
  | NothingToCommit
  | Committed string string
  | NoCommitsYet
  | FatalMissingCommit string
  | CommitEntry string string
  | Usage
  | UsageAdd
  | UsageCommit
  | NotARepository
  | UnknownCommand string
  | ErrorReport error

text \<open>
  A command returns what it printed, the exception that left it (if any), and the file
  system as it stands at that point.
\<close>

type_synonym outcome = "event list \<times> error option \<times> filesystem"

abbreviation printed :: "outcome \<Rightarrow> event list" where
  "printed r \<equiv> fst r"

abbreviation raised :: "outcome \<Rightarrow> error option" where
  "raised r \<equiv> fst (snd r)"

abbreviation after :: "outcome \<Rightarrow> filesystem" where
  "after r \<equiv> snd (snd r)"

subsection \<open>\<^verbatim>\<open>init\<close>\<close>

text \<open>\<^verbatim>\<open>fs::create_directory\<close>: nothing to do on a directory, an error on a file or when
  the directory cannot be made.\<close>

definition create_directory :: "filesystem \<Rightarrow> string \<Rightarrow> error + filesystem" where
  "create_directory fs p =
     (case node fs p of
        Directory \<Rightarrow> Inr fs
      | File _ \<Rightarrow> Inl (FilesystemError p)
      | Missing \<Rightarrow>
          if p \<noteq> [] \<and> can_write fs p then Inr (fs\<lparr>node := (node fs)(p := Directory)\<rparr>)
          else Inl (FilesystemError p))"

definition init :: "filesystem \<Rightarrow> outcome" where
  "init fs =
     (if repoExists fs then ([AlreadyInitialized], None, fs)
      else case create_directory fs GIT_DIR of
        Inl e \<Rightarrow> ([], Some e, fs)
      | Inr fs1 \<Rightarrow>
         (case create_directory fs1 OBJECTS_DIR of
            Inl e \<Rightarrow> ([], Some e, fs1)
          | Inr fs2 \<Rightarrow>
             (case setHEAD fs2 [] of
                Inl e \<Rightarrow> ([], Some e, fs2)
              | Inr fs3 \<Rightarrow> ([Initialized], None, setStagingArea fs3 []))))"

subsection \<open>\<^verbatim>\<open>add\<close>\<close>

definition say :: "event \<Rightarrow> event list \<times> 'a \<Rightarrow> event list \<times> 'a" where
  "say ev r = (ev # fst r, snd r)"

text \<open>
  The \<^verbatim>\<open>for\<close> loop of \<^verbatim>\<open>add\<close> over the file names, on the map \<open>stagedFiles\<close> and the
  file system.  An exception leaves the loop with the state reached so far:
  \<^verbatim>\<open>filesystem_error\<close> from \<^verbatim>\<open>fs::exists(filepath)\<close> when the status of the name cannot
  be told, \<^verbatim>\<open>runtime_error\<close> from reading the file or writing the object.
\<close>

text \<open>
  Steps 2 and 3 of the loop body: hash the content and write it under
  \<^verbatim>\<open>OBJECTS_DIR / hash\<close> unless that path exists already.  Gives back the hash.
  \<^verbatim>\<open>fs::exists(objectPath)\<close> throws when the status of the path cannot be told.
\<close>

definition storeObject :: "(string \<Rightarrow> 'w::len word) \<Rightarrow> filesystem \<Rightarrow> string
    \<Rightarrow> error + string \<times> filesystem" where
  "storeObject hasher fs content =
     (let hash = hashString hasher content;
          objectPath = path_append OBJECTS_DIR hash
      in if status_error fs objectPath then Inl (FilesystemError objectPath)
         else if \<not> fs_exists fs objectPath
         then (case writeFileContent fs objectPath content of
                 Inl e \<Rightarrow> Inl e
               | Inr fs' \<Rightarrow> Inr (hash, fs'))
         else Inr (hash, fs))"

fun add_loop :: "(string \<Rightarrow> 'w::len word) \<Rightarrow> string list \<Rightarrow> smap \<Rightarrow> filesystem
    \<Rightarrow> event list \<times> error option \<times> smap \<times> filesystem" where
  "add_loop hasher [] stagedFiles fs = ([], None, stagedFiles, fs)"
| "add_loop hasher (filename # rest) stagedFiles fs =
     (if status_error fs filename then ([], Some (FilesystemError filename), stagedFiles, fs)
      else if \<not> fs_exists fs filename
      then say (FileNotFound filename) (add_loop hasher rest stagedFiles fs)
      else if is_directory fs filename
      then say (CannotAddDirectory filename) (add_loop hasher rest stagedFiles fs)
      else case readFileContent fs filename of
        Inl e \<Rightarrow> ([], Some e, stagedFiles, fs)
      | Inr content \<Rightarrow>
         (case storeObject hasher fs content of
            Inl e \<Rightarrow> ([], Some e, stagedFiles, fs)
          | Inr (hash, fs') \<Rightarrow>
              say (Staged filename) (add_loop hasher rest (map_put filename hash stagedFiles) fs')))"

abbreviation loop_raised :: "event list \<times> error option \<times> smap \<times> filesystem \<Rightarrow> error option" where
  "loop_raised r \<equiv> fst (snd r)"

abbreviation loop_staged :: "event list \<times> error option \<times> smap \<times> filesystem \<Rightarrow> smap" where
  "loop_staged r \<equiv> fst (snd (snd r))"

abbreviation loop_fs :: "event list \<times> error option \<times> smap \<times> filesystem \<Rightarrow> filesystem" where
  "loop_fs r \<equiv> snd (snd (snd r))"

definition add :: "(string \<Rightarrow> 'w::len word) \<Rightarrow> string list \<Rightarrow> filesystem \<Rightarrow> outcome" where
  "add hasher filenames fs =
     (case add_loop hasher filenames (getStagingArea fs) fs of
        (out, Some e, stagedFiles, fs') \<Rightarrow> (out, Some e, fs')
      | (out, None, stagedFiles, fs') \<Rightarrow> (out, None, setStagingArea fs' stagedFiles))"

subsection \<open>\<^verbatim>\<open>commit\<close>\<close>

text \<open>
  Steps 3 and 4: the file map of the new commit, the parent's files (none for the empty
  HEAD) with every staged entry put on top.
\<close>

definition commitFilesFor :: "filesystem \<Rightarrow> string \<Rightarrow> smap \<Rightarrow> error + smap" where
  "commitFilesFor fs parentCommit stagedFiles =
     (case (if parentCommit \<noteq> [] then getCommitFiles fs parentCommit else Inr []) of
        Inl e \<Rightarrow> Inl e
      | Inr inherited \<Rightarrow>
          Inr (fold (\<lambda>(filename, hash). map_put filename hash) stagedFiles inherited))"

definition commit :: "(string \<Rightarrow> 'w::len word) \<Rightarrow> string \<Rightarrow> filesystem \<Rightarrow> outcome" where
  "commit hasher message fs =
     (let stagedFiles = getStagingArea fs in
      if stagedFiles = [] then ([NothingToCommit], None, fs)
      else case getHEAD fs of
        Inl e \<Rightarrow> ([], Some e, fs)
      | Inr parentCommit \<Rightarrow>
         (case commitFilesFor fs parentCommit stagedFiles of
            Inl e \<Rightarrow> ([], Some e, fs)
          | Inr commitFiles \<Rightarrow>
             (let commitText = commitString parentCommit message commitFiles;
                  commitHash = hashString hasher commitText
              in case writeFileContent fs (path_append OBJECTS_DIR commitHash) commitText of
                   Inl e \<Rightarrow> ([], Some e, fs)
                 | Inr fs1 \<Rightarrow>
                    (case setHEAD fs1 commitHash of
                       Inl e \<Rightarrow> ([], Some e, fs1)
                     | Inr fs2 \<Rightarrow> ([Committed commitHash message], None, setStagingArea fs2 [])))))"

subsection \<open>\<^verbatim>\<open>log\<close>\<close>

text \<open>One line of a commit object, as the inner loop of \<^verbatim>\<open>log\<close> reads it into
  \<open>(parentHash, message)\<close>.\<close>

definition log_line :: "string \<Rightarrow> string \<times> string \<Rightarrow> string \<times> string" where
  "log_line line pm =
     (if starts_with ''parent: '' line then (drop 8 line, snd pm)
      else if starts_with ''message: '' line then (fst pm, drop 9 line)
      else pm)"

text \<open>
  The \<^verbatim>\<open>while\<close> loop of \<^verbatim>\<open>log\<close> from a commit hash.  Nothing in the source bounds the
  walk (a store whose parent links form a cycle is walked for ever), so the loop is a
  partial function: \<open>None\<close> is the walk that never ends.
\<close>

partial_function (option) log_walk :: "filesystem \<Rightarrow> string \<Rightarrow> (event list \<times> error option) option" where
  "log_walk fs currentCommitHash =
     (if currentCommitHash = [] then Some ([], None)
      else if \<not> fs_exists fs (path_append OBJECTS_DIR currentCommitHash)
      then Some ([FatalMissingCommit currentCommitHash], None)
      else case readFileContent fs (path_append OBJECTS_DIR currentCommitHash) of
        Inl e \<Rightarrow> Some ([], Some e)
      | Inr commitContent \<Rightarrow>
          Option.bind
            (log_walk fs (fst (fold log_line (getlines commitContent) ([], []))))
            (\<lambda>r. Some (say (CommitEntry currentCommitHash
                              (snd (fold log_line (getlines commitContent) ([], [])))) r)))"

declare log_walk.simps [code]

definition log :: "filesystem \<Rightarrow> outcome option" where
  "log fs =
     (case getHEAD fs of
        Inl e \<Rightarrow> Some ([], Some e, fs)
      | Inr currentCommitHash \<Rightarrow>
          if currentCommitHash = [] then Some ([NoCommitsYet], None, fs)
          else map_option (\<lambda>r. (fst r, snd r, fs)) (log_walk fs currentCommitHash))"

subsection \<open>\<^verbatim>\<open>main\<close>\<close>

text \<open>The exit code of \<^verbatim>\<open>main\<close> after a command: an exception is caught, reported, and
  gives 1.\<close>

definition finish :: "outcome \<Rightarrow> int \<times> event list \<times> filesystem" where
  "finish r =
     (case r of
        (out, None, fs) \<Rightarrow> (0, out, fs)
      | (out, Some e, fs) \<Rightarrow> (1, out @ [ErrorReport e], fs))"

definition main :: "(string \<Rightarrow> 'w::len word) \<Rightarrow> string list \<Rightarrow> filesystem
    \<Rightarrow> (int \<times> event list \<times> filesystem) option" where
  "main hasher argv fs =
     (if length argv < 2 then Some (1, [Usage], fs)
      else let command = argv ! 1 in
        if command = ''init'' then Some (finish (init fs))
        else if command = ''add'' then
          (if \<not> repoExists fs then Some (1, [NotARepository], fs)
           else if length argv < 3 then Some (1, [UsageAdd], fs)
           else Some (finish (add hasher (drop 2 argv) fs)))
        else if command = ''commit'' then
          (if \<not> repoExists fs then Some (1, [NotARepository], fs)
           else if length argv \<noteq> 4 \<or> argv ! 2 \<noteq> ''-m'' then Some (1, [UsageCommit], fs)
           else Some (finish (commit hasher (argv ! 3) fs)))
        else if command = ''log'' then
          (if \<not> repoExists fs then Some (1, [NotARepository], fs)
           else map_option finish (log fs))
        else Some (1, [UnknownCommand command, Usage], fs))"

subsection \<open>Words and well-formed maps\<close>

text \<open>What \<^verbatim>\<open>hashString\<close> returns: one or more lower-case hexadecimal digits.\<close>

definition is_hex :: "string \<Rightarrow> bool" where
  "is_hex h = (h \<noteq> [] \<and> set h \<subseteq> set ''0123456789abcdef'')"

text \<open>A word is what \<^verbatim>\<open>operator>>\<close> reads back whole: not empty, no white space.\<close>

definition is_word :: "string \<Rightarrow> bool" where
  "is_word w = (w \<noteq> [] \<and> (\<forall>c \<in> set w. \<not> isspace c))"

definition words_only :: "smap \<Rightarrow> bool" where
  "words_only m = (\<forall>(k, v) \<in> set m. is_word k \<and> is_word v)"

text \<open>The maps the program reads from its own files: sorted by key, words only.\<close>

definition good_map :: "smap \<Rightarrow> bool" where
  "good_map m = (is_map m \<and> words_only m)"

subsection \<open>The layout of a commit object\<close>

text \<open>The two header lines of a commit object, and the line of one file entry.\<close>

definition commit_header :: "string \<Rightarrow> string \<Rightarrow> string" where
  "commit_header parentCommit message =
     (''parent: '' @ parentCommit @ [newline]) @ ''message: '' @ message @ [newline]"

definition file_line :: "string \<times> string \<Rightarrow> string" where
  "file_line e = ''file: '' @ fst e @ '' '' @ snd e"

text \<open>
  The commit object as the specification lays it out: the parent line, the message
  line, then one file line per entry of the snapshot, every line ended by a newline.
\<close>

definition commit_object_text :: "string \<Rightarrow> string \<Rightarrow> smap \<Rightarrow> string" where
  "commit_object_text parent message snapshot =
     concat (map (\<lambda>line. line @ [newline])
       ((''parent: '' @ parent) # (''message: '' @ message) # map file_line snapshot))"

text \<open>The entries of the well-formed file lines of a text, in the order of the lines.\<close>

definition file_entries :: "string \<Rightarrow> smap" where
  "file_entries content =
     List.map_filter
       (\<lambda>line. if starts_with ''file: '' line then extract_pair (drop 6 line) else None)
       (getlines content)"

subsection \<open>The state between the steps\<close>

text \<open>The file map \<^verbatim>\<open>commit\<close> would build in a state: steps 1 to 4.\<close>

definition snapshot_of :: "filesystem \<Rightarrow> error + smap" where
  "snapshot_of fs =
     (case getHEAD fs of
        Inl e \<Rightarrow> Inl e
      | Inr parentCommit \<Rightarrow> commitFilesFor fs parentCommit (getStagingArea fs))"

text \<open>Every entry of the objects directory is a file named by the hash of its content.\<close>

definition well_keyed :: "(string \<Rightarrow> 'w::len word) \<Rightarrow> filesystem \<Rightarrow> bool" where
  "well_keyed hasher fs =
     (\<forall>k. CHR ''/'' \<notin> set k \<longrightarrow>
        node fs (path_append OBJECTS_DIR k) \<noteq> Directory \<and>
        (\<forall>c. node fs (path_append OBJECTS_DIR k) = File c \<longrightarrow> k = hashString hasher c))"

text \<open>
  What \<^verbatim>\<open>add\<close> may change on disk before it saves the index: a path that did not exist
  may become an object file, named by the hash of its content.
\<close>

definition grows :: "(string \<Rightarrow> 'w::len word) \<Rightarrow> filesystem \<Rightarrow> filesystem \<Rightarrow> bool" where
  "grows hasher fs fs' =
     (can_read fs' = can_read fs \<and> can_write fs' = can_write fs \<and> can_stat fs' = can_stat fs \<and>
      (\<forall>p. node fs' p = node fs p \<or>
           (node fs p = Missing \<and>
            (\<exists>c. p = path_append OBJECTS_DIR (hashString hasher c) \<and> node fs' p = File c))))"


subsection \<open>History that ends at a missing object\<close>

text \<open>
  \<open>walk_to_missing fs h cs m\<close>: following the parent lines from the commit \<open>h\<close>, as
  \<^verbatim>\<open>log\<close> reads them, passes the commits \<open>cs\<close> (hash and message, youngest first), all
  readable, and then reaches the hash \<open>m\<close>, for which no object file exists.
\<close>

inductive walk_to_missing :: "filesystem \<Rightarrow> string \<Rightarrow> (string \<times> string) list \<Rightarrow> string \<Rightarrow> bool"
  for fs :: filesystem where
    stop: "h \<noteq> [] \<Longrightarrow> \<not> fs_exists fs (path_append OBJECTS_DIR h) \<Longrightarrow>
           walk_to_missing fs h [] h"
  | step: "h \<noteq> [] \<Longrightarrow> readFileContent fs (path_append OBJECTS_DIR h) = Inr content \<Longrightarrow>
           walk_to_missing fs (fst (fold log_line (getlines content) ([], []))) cs m \<Longrightarrow>
           walk_to_missing fs h ((h, snd (fold log_line (getlines content) ([], []))) # cs) m"

subsection \<open>Example inputs\<close>

text \<open>A hash function to run the model on: the length of the text.\<close>

definition length_hasher :: "string \<Rightarrow> 64 word" where
  "length_hasher s = of_nat (length s)"

text \<open>A file system from a list of paths, every path readable and writable, the status of
  every path known.\<close>

definition disk :: "(string \<times> node) list \<Rightarrow> filesystem" where
  "disk tree =
     \<lparr>node = (\<lambda>p. case map_of tree p of Some n \<Rightarrow> n | None \<Rightarrow> Missing),
      can_read = (\<lambda>p. True),
      can_write = (\<lambda>p. True),
      can_stat = (\<lambda>p. True)\<rparr>"

text \<open>A repository right after \<^verbatim>\<open>init\<close>, beside a file \<^verbatim>\<open>a.txt\<close>.\<close>

definition fresh_repo :: filesystem where
  "fresh_repo =
     disk [(''.minigit'', Directory), (''.minigit/objects'', Directory),
           (''.minigit/HEAD'', File []), (''.minigit/index'', File []),
           (''a.txt'', File ''hello'')]"

text \<open>\<open>fresh_repo\<close> after the content of \<^verbatim>\<open>a.txt\<close> has been stored.\<close>

definition hello_stored :: filesystem where
  "hello_stored = put_file fresh_repo ''.minigit/objects/5'' ''hello''"

text \<open>\<open>fresh_repo\<close> after \<^verbatim>\<open>add a.txt\<close>; the same with the object file of the next commit, or
  with HEAD, closed to writing.\<close>

definition staged_repo :: filesystem where
  "staged_repo =
     disk [(''.minigit'', Directory), (''.minigit/objects'', Directory),
           (''.minigit/HEAD'', File []), (''.minigit/index'', File ''a.txt 5\<newline>''),
           (''.minigit/objects/5'', File ''hello''), (''a.txt'', File ''hello'')]"

definition object_locked :: filesystem where
  "object_locked = staged_repo\<lparr>can_write := (\<lambda>p. p \<noteq> ''.minigit/objects/26'')\<rparr>"

definition head_locked :: filesystem where
  "head_locked = staged_repo\<lparr>can_write := (\<lambda>p. p \<noteq> ''.minigit/HEAD'')\<rparr>"

text \<open>\<open>staged_repo\<close> with the index file closed to writing (a read-only file).\<close>

definition index_locked :: filesystem where
  "index_locked = staged_repo\<lparr>can_write := (\<lambda>p. p \<noteq> ''.minigit/index'')\<rparr>"

text \<open>\<open>staged_repo\<close> with one more file in the working directory.\<close>

definition noted_repo :: filesystem where
  "noted_repo = put_file staged_repo ''notes.txt'' ''remember''"

text \<open>A repository with \<^verbatim>\<open>b.txt\<close> staged, beside a file and a directory; and one with the
  entry \<^verbatim>\<open>my\<close> staged, beside a file whose name has a space in it.\<close>

definition indexed_repo :: filesystem where
  "indexed_repo =
     disk [(''.minigit'', Directory), (''.minigit/objects'', Directory),
           (''.minigit/HEAD'', File []), (''.minigit/index'', File ''b.txt 7\<newline>''),
           (''a.txt'', File ''hello''), (''docs'', Directory)]"

definition spaced_repo :: filesystem where
  "spaced_repo =
     disk [(''.minigit'', Directory), (''.minigit/objects'', Directory),
           (''.minigit/HEAD'', File []), (''.minigit/index'', File ''my abc\<newline>''),
           (''my file.txt'', File ''x'')]"



text \<open>A store with one object that is no commit at all.\<close>

definition junk_store :: filesystem where
  "junk_store =
     disk [(''.minigit'', Directory), (''.minigit/objects'', Directory),
           (''.minigit/HEAD'', File ''1f''), (''.minigit/index'', File []),
           (''.minigit/objects/1f'', File ''hello'')]"

text \<open>A store with one commit, written the way \<^verbatim>\<open>commit\<close> writes it under
  \<open>length_hasher\<close>.\<close>

definition one_commit_store :: filesystem where
  "one_commit_store =
     disk [(''.minigit'', Directory), (''.minigit/objects'', Directory),
           (''.minigit/HEAD'', File ''26''), (''.minigit/index'', File []),
           (''.minigit/objects/26'', File (commitString [] ''first'' [(''a.txt'', ''5'')]))]"

text \<open>The same store with its commit object closed to reading.\<close>

definition sealed_store :: filesystem where
  "sealed_store = one_commit_store\<lparr>can_read := (\<lambda>p. p \<noteq> ''.minigit/objects/26'')\<rparr>"

text \<open>A repository whose only commit names a parent that is not in the store.\<close>

definition broken_chain :: filesystem where
  "broken_chain =
     disk [(''.minigit'', Directory), (''.minigit/objects'', Directory),
           (''.minigit/HEAD'', File ''26''), (''.minigit/index'', File []),
           (''.minigit/objects/26'',
              File ''parent: 99\<newline>message: second\<newline>file: a.txt 5\<newline>'')]"

section \<open>Properties\<close>

subsection \<open>Maps as sorted lists\<close>

lemma map_of_map_put: "map_of (map_put k v m) = (map_of m)(k \<mapsto> v)"
  by (induction m) (auto simp: fun_upd_twist)

lemma keys_map_put: "set (map fst (map_put k v m)) = insert k (set (map fst m))"
  by (induction k v m rule: map_put.induct) auto

lemma is_map_map_put: "is_map m \<Longrightarrow> is_map (map_put k v m)"
proof (induction m)
  case Nil
  then show ?case by (simp add: is_map_def)
next
  case (Cons a m)
  obtain k' v' where a: "a = (k', v')" by (cases a)
  from Cons.prems have tl: "is_map m" and hd: "\<forall>x \<in> set (map fst m). k' < x"
    by (auto simp: is_map_def a)
  have "is_map (map_put k v m)" using Cons.IH tl .
  moreover have "k' < k \<Longrightarrow> \<forall>x \<in> set (map fst (map_put k v m)). k' < x"
    using hd unfolding keys_map_put by simp
  ultimately show ?case using Cons.prems hd
    by (auto simp: is_map_def a)
qed

lemma is_map_distinct: "is_map m \<Longrightarrow> distinct (map fst m)"
  unfolding is_map_def by (simp add: strict_sorted_iff)

lemma same_keys_same_map:
  "map fst a = map fst b \<Longrightarrow> distinct (map fst a) \<Longrightarrow> map_of a = map_of b \<Longrightarrow> a = b"
proof (induction a arbitrary: b)
  case Nil
  then show ?case by simp
next
  case (Cons x a)
  then obtain y b' where b: "b = y # b'" by (cases b) auto
  obtain k v where x: "x = (k, v)" by (cases x)
  obtain k' v' where y: "y = (k', v')" by (cases y)
  from Cons.prems(1) have kk: "k' = k" and keys: "map fst a = map fst b'"
    by (auto simp: b x y)
  have eq: "map_of ((k, v) # a) = map_of ((k, v') # b')"
    using Cons.prems(3) unfolding b x y kk .
  have "map_of ((k, v) # a) k = map_of ((k, v') # b') k"
    by (rule fun_cong [OF eq])
  then have vv: "v' = v" by simp
  from Cons.prems(2) have nk: "k \<notin> set (map fst a)" and da: "distinct (map fst a)"
    by (simp_all add: x)
  have nk': "k \<notin> set (map fst b')" using nk keys by simp
  have "map_of a z = map_of b' z" for z
  proof (cases "z = k")
    case True
    have "map_of a k = None" using nk by (simp add: map_of_eq_None_iff)
    moreover have "map_of b' k = None" using nk' by (simp add: map_of_eq_None_iff)
    ultimately show ?thesis using True by simp
  next
    case False
    have "map_of ((k, v) # a) z = map_of ((k, v') # b') z"
      by (rule fun_cong [OF eq])
    then show ?thesis using False by simp
  qed
  then have "map_of a = map_of b'" by (rule ext)
  then have "a = b'" using Cons.IH [OF keys da] by simp
  then show ?case by (simp add: b x y kk vv)
qed

lemma is_map_unique:
  assumes "is_map a" "is_map b" "map_of a = map_of b"
  shows "a = b"
proof -
  have "set (map fst a) = set (map fst b)"
    using assms(3) by (metis dom_map_of_conv_image_fst set_map)
  then have "map fst a = map fst b"
    using assms(1,2) unfolding is_map_def by (metis strict_sorted_equal)
  then show ?thesis
    using assms(1,3) is_map_distinct same_keys_same_map by blast
qed

lemma is_map_fold_put:
  "is_map m \<Longrightarrow> is_map (fold (\<lambda>(filename, hash). map_put filename hash) xs m)"
  by (induction xs arbitrary: m) (auto simp: is_map_map_put)

lemma map_of_fold_put:
  "map_of (fold (\<lambda>(filename, hash). map_put filename hash) xs m) = map_of m ++ map_of (rev xs)"
  by (induction xs arbitrary: m) (auto simp: map_of_map_put  map_add_upd_left)

lemma map_of_fold_put_distinct:
  "distinct (map fst xs) \<Longrightarrow>
   map_of (fold (\<lambda>(filename, hash). map_put filename hash) xs m) = map_of m ++ map_of xs"
  by (metis distinct_rev map_of_fold_put map_of_inject_set rev_map set_rev)

lemma fold_put_self:
  "is_map m \<Longrightarrow> fold (\<lambda>(filename, hash). map_put filename hash) m [] = m"
proof (rule is_map_unique)
  assume m: "is_map m"
  have "is_map ([] :: ('a \<times> 'b) list)" by (simp add: is_map_def)
  then show "is_map (fold (\<lambda>(filename, hash). map_put filename hash) m [])"
    by (rule is_map_fold_put)
  show "is_map m" by (rule m)
  show "map_of (fold (\<lambda>(filename, hash). map_put filename hash) m []) = map_of m"
    using is_map_distinct [OF m] by (simp add: map_of_fold_put_distinct)
qed

subsection \<open>Lines and words\<close>

lemma isspace_newline: "isspace newline"
  by (simp add: isspace_def newline_def)

lemma isspace_space: "isspace CHR '' ''"
  by (simp add: isspace_def)

lemma is_word_no_newline: "is_word w \<Longrightarrow> newline \<notin> set w"
  using isspace_newline by (auto simp: is_word_def)

lemma getlines_from_line:
  "newline \<notin> set l \<Longrightarrow> getlines_from acc (l @ newline # rest) = (acc @ l) # getlines_from [] rest"
  by (induction l arbitrary: acc) auto

lemma getlines_line: "newline \<notin> set l \<Longrightarrow> getlines (l @ newline # rest) = l # getlines rest"
  by (simp add: getlines_def getlines_from_line)

lemma getlines_from_split:
  "getlines_from acc (a @ newline # b) = getlines_from acc (a @ [newline]) @ getlines_from [] b"
  by (induction a arbitrary: acc) auto

lemma getlines_split: "getlines (a @ newline # b) = getlines (a @ [newline]) @ getlines b"
  unfolding getlines_def by (rule getlines_from_split)

lemma takeWhile_stop: "rest = [] \<or> \<not> P (hd rest) \<Longrightarrow> takeWhile P rest = []"
  by (cases rest) auto

lemma dropWhile_stop: "rest = [] \<or> \<not> P (hd rest) \<Longrightarrow> dropWhile P rest = rest"
  by (cases rest) auto

lemma extract_word_word:
  assumes w: "is_word w" and rest: "rest = [] \<or> isspace (hd rest)"
  shows "extract_word (w @ rest) = Some (w, rest)"
proof -
  from w have ne: "w \<noteq> []" and ns: "\<forall>c \<in> set w. \<not> isspace c"
    by (simp_all add: is_word_def)
  from ne ns have "\<not> isspace (hd (w @ rest))" by (cases w) auto
  then have skip: "dropWhile isspace (w @ rest) = w @ rest"
    using ne by (simp add: dropWhile_stop)
  have tk: "takeWhile (\<lambda>c. \<not> isspace c) (w @ rest) = w"
    using ns rest by (simp add: takeWhile_append2 takeWhile_stop)
  have dr: "dropWhile (\<lambda>c. \<not> isspace c) (w @ rest) = rest"
    using ns rest by (simp add: dropWhile_append2 dropWhile_stop)
  show ?thesis
    unfolding extract_word_def Let_def skip tk dr using ne by simp
qed

lemma extract_word_is_word:
  assumes "extract_word s = Some (w, r)"
  shows "is_word w"
proof -
  from assms have "w = takeWhile (\<lambda>c. \<not> isspace c) (dropWhile isspace s)" and "w \<noteq> []"
    by (auto simp: extract_word_def Let_def split: if_splits)
  then show ?thesis
    unfolding is_word_def by (metis set_takeWhileD)
qed

lemma extract_pair_words:
  assumes "is_word k" "is_word v"
  shows "extract_pair (k @ '' '' @ v) = Some (k, v)"
proof -
  have 1: "extract_word (k @ '' '' @ v) = Some (k, '' '' @ v)"
    using assms(1) by (rule extract_word_word) (simp add: isspace_space)
  from assms(2) have "v \<noteq> []" "\<not> isspace (hd v)" 
    by (cases v; simp add: is_word_def)+
  then have skip: "dropWhile isspace ('' '' @ v) = dropWhile isspace v"
    by (simp add: isspace_space)
  have "extract_word (v @ []) = Some (v, [])"
    using assms(2) by (rule extract_word_word) simp
  then have 2: "extract_word ('' '' @ v) = Some (v, [])"
    unfolding extract_word_def skip by simp
  show ?thesis
    using 1 2 by (simp add: extract_pair_def)
qed

lemma extract_pair_is_word:
  assumes "extract_pair s = Some (k, v)" 
  shows "is_word k \<and> is_word v"
  using assms unfolding extract_pair_def
  by (auto split: option.splits dest: extract_word_is_word)

lemma set_map_put: "set (map_put k v m) \<subseteq> insert (k, v) (set m)"
  by (induction k v m rule: map_put.induct) auto

lemma words_only_map_put:
  "words_only m \<Longrightarrow> is_word k \<Longrightarrow> is_word v \<Longrightarrow> words_only (map_put k v m)"
  using set_map_put [of k v m] unfolding words_only_def by fastforce

lemma good_map_Nil: "good_map []"
  by (simp add: good_map_def is_map_def words_only_def)

lemma good_map_index_line: "good_map m \<Longrightarrow> good_map (index_line line m)"
  unfolding good_map_def index_line_def
  by (auto split: option.splits dest!: extract_pair_is_word intro: is_map_map_put words_only_map_put)

lemma good_map_commit_file_line: "good_map m \<Longrightarrow> good_map (commit_file_line line m)"
  unfolding good_map_def commit_file_line_def
  by (auto split: option.splits dest!: extract_pair_is_word intro: is_map_map_put words_only_map_put)

lemma good_map_fold: "(\<And>l m. good_map m \<Longrightarrow> good_map (f l m)) \<Longrightarrow> good_map m \<Longrightarrow> good_map (fold f ls m)"
  by (induction ls arbitrary: m) auto

lemma good_map_getStagingArea: "good_map (getStagingArea fs)"
  unfolding getStagingArea_def
  by (auto split: option.splits intro!: good_map_Nil good_map_fold good_map_index_line)

lemma good_map_getCommitFiles: "getCommitFiles fs h = Inr m \<Longrightarrow> good_map m"
  unfolding getCommitFiles_def Let_def
  by (auto split: if_splits sum.splits intro!: good_map_Nil good_map_fold good_map_commit_file_line)

lemma good_map_put_all:
  "good_map m \<Longrightarrow> words_only xs \<Longrightarrow> good_map (fold (\<lambda>(filename, hash). map_put filename hash) xs m)"
proof (induction xs arbitrary: m)
  case Nil
  then show ?case by simp
next
  case (Cons x xs)
  obtain k v where x: "x = (k, v)" by (cases x)
  from Cons.prems(2) have kv: "is_word k" "is_word v" and xs: "words_only xs"
    by (simp_all add: words_only_def x)
  have "good_map (map_put k v m)"
    using Cons.prems(1) kv by (simp add: good_map_def is_map_map_put words_only_map_put)
  from Cons.IH [OF this xs] show ?case by (simp add: x)
qed

subsection \<open>The index file read back\<close>

lemma fold_out: 
  "fold (\<lambda>(k, v) out. out @ g k v) m acc = acc @ concat (map (\<lambda>(k, v). g k v) m)"
  by (induction m arbitrary: acc) auto

lemma index_text_Cons:
  "index_text ((k, v) # m) = (k @ '' '' @ v) @ newline # index_text m"
  unfolding index_text_def fold_out by simp

lemma index_text_Nil: "index_text [] = []"
  by (simp add: index_text_def)

lemma getlines_Nil: "getlines [] = []"
  by (simp add: getlines_def)

lemma index_roundtrip_fold:
  "words_only m \<Longrightarrow>
   fold index_line (getlines (index_text m)) acc = fold (\<lambda>(filename, hash). map_put filename hash) m acc"
proof (induction m arbitrary: acc)
  case Nil
  then show ?case by (simp add: index_text_Nil getlines_Nil)
next
  case (Cons x m)
  obtain k v where x: "x = (k, v)" by (cases x)
  from Cons.prems have kv: "is_word k" "is_word v" and m: "words_only m"
    by (simp_all add: words_only_def x)
  have nl: "newline \<notin> set (k @ '' '' @ v)"
    using is_word_no_newline [OF kv(1)] is_word_no_newline [OF kv(2)]
    by (simp add: newline_def)
  have lines: "getlines (index_text (x # m)) = (k @ '' '' @ v) # getlines (index_text m)"
    unfolding x index_text_Cons by (rule getlines_line [OF nl])
  have "index_line (k @ '' '' @ v) acc = map_put k v acc"
    using extract_pair_words [OF kv] by (simp add: index_line_def)
  then show ?case
    unfolding lines using Cons.IH [OF m] by (simp add: x)
qed

lemma index_roundtrip:
  "good_map m \<Longrightarrow> fold index_line (getlines (index_text m)) [] = m"
  by (simp add: good_map_def index_roundtrip_fold fold_put_self)

subsection \<open>Hashes and paths\<close>

lemma hex_digit_in: "d < 16 \<Longrightarrow> hex_digit d \<in> set ''0123456789abcdef''"
  unfolding hex_digit_def by (rule nth_mem) simp

lemma is_hex_hex_of_nat: "is_hex (hex_of_nat n)"
proof (induction n rule: hex_of_nat.induct)
  case (1 n)
  show ?case
  proof (cases "n < 16")
    case True
    then show ?thesis using hex_digit_in [of n]
      by (subst hex_of_nat.simps) (simp add: is_hex_def)
  next
    case False
    have "n mod 16 < 16" by simp
    from hex_digit_in [OF this] "1" [OF False] False show ?thesis
      by (subst hex_of_nat.simps) (simp add: is_hex_def)
  qed
qed

lemma is_hex_hashString: "is_hex (hashString hasher content)"
  by (simp add: hashString_def is_hex_hex_of_nat)

lemma OBJECTS_DIR_eq: "OBJECTS_DIR = ''.minigit/objects''"
  by (simp add: OBJECTS_DIR_def GIT_DIR_def path_append_def)

lemma HEAD_FILE_eq: "HEAD_FILE = ''.minigit/HEAD''"
  by (simp add: HEAD_FILE_def GIT_DIR_def path_append_def)

lemma INDEX_FILE_eq: "INDEX_FILE = ''.minigit/index''"
  by (simp add: INDEX_FILE_def GIT_DIR_def path_append_def)

lemma object_path_hex: "is_hex h \<Longrightarrow> path_append OBJECTS_DIR h = ''.minigit/objects/'' @ h"
  by (cases h) (auto simp: is_hex_def path_append_def OBJECTS_DIR_eq)

lemma object_path_facts:
  assumes "is_hex h"
  shows "path_append OBJECTS_DIR h \<noteq> HEAD_FILE"
    and "path_append OBJECTS_DIR h \<noteq> INDEX_FILE"
    and "path_append OBJECTS_DIR h \<noteq> []"
    and "HEAD_FILE \<noteq> path_append OBJECTS_DIR h"
    and "INDEX_FILE \<noteq> path_append OBJECTS_DIR h"
  using assms by (simp_all add: object_path_hex HEAD_FILE_eq INDEX_FILE_eq)

lemma object_path_inj: "is_hex h \<Longrightarrow> is_hex h' \<Longrightarrow> path_append OBJECTS_DIR h = path_append OBJECTS_DIR h' \<longleftrightarrow> h = h'"
  by (simp add: object_path_hex)

lemma HEAD_INDEX_distinct: "HEAD_FILE \<noteq> INDEX_FILE" "INDEX_FILE \<noteq> HEAD_FILE" "HEAD_FILE \<noteq> []" "INDEX_FILE \<noteq> []"
  by (simp_all add: HEAD_FILE_eq INDEX_FILE_eq)

lemma object_path_plain:
  "CHR ''/'' \<notin> set k \<Longrightarrow> path_append OBJECTS_DIR k = ''.minigit/objects/'' @ k"
  by (cases k) (auto simp: path_append_def OBJECTS_DIR_eq)

lemma is_hex_no_slash: "is_hex h \<Longrightarrow> CHR ''/'' \<notin> set h"
  by (auto simp: is_hex_def)

lemma is_hex_is_word: "is_hex h \<Longrightarrow> is_word h"
  by (auto simp: is_hex_def is_word_def isspace_def)

subsection \<open>Claims about \<^verbatim>\<open>commit\<close> on an empty index\<close>

text \<open>
  Claim C4.  When the staging index read by \<^verbatim>\<open>getStagingArea\<close> is empty,
  \<^verbatim>\<open>commit(message)\<close> prints "Nothing to commit", raises nothing and returns the file
  system it was given, unchanged as a whole (HEAD, the index and every object); run
  through \<^verbatim>\<open>main\<close> inside a repository, the process exits with code 0.
\<close>

theorem commit_nothing_to_commit:
  assumes "getStagingArea fs = []"
  shows "commit hasher message fs = ([NothingToCommit], None, fs) \<and>
         (repoExists fs \<longrightarrow>
            main hasher [prog, ''commit'', ''-m'', message] fs = Some (0, [NothingToCommit], fs))"
  using assms by (simp add: commit_def main_def finish_def)

theorem commit_nothing_to_commit_witness:
  "getStagingArea fresh_repo = [] \<and> repoExists fresh_repo \<and>
   commit length_hasher ''first'' fresh_repo = ([NothingToCommit], None, fresh_repo) \<and>
   main length_hasher [''minigit'', ''commit'', ''-m'', ''first''] fresh_repo
     = Some (0, [NothingToCommit], fresh_repo)"
proof -
  have 1: "getStagingArea fresh_repo = []"
    by (simp add: getStagingArea_def fresh_repo_def disk_def fs_exists_def ifstream_open_def
        INDEX_FILE_def GIT_DIR_def path_append_def getlines_def)
  have 2: "repoExists fresh_repo"
    by (simp add: repoExists_def fresh_repo_def disk_def fs_exists_def is_directory_def GIT_DIR_def)
  from commit_nothing_to_commit [OF 1, of length_hasher "''first''" "''minigit''"] 1 2
  show ?thesis by simp
qed

subsection \<open>Claims about the staging index file\<close>

lemma getStagingArea_put_index:
  "can_read fs INDEX_FILE \<Longrightarrow>
   getStagingArea (put_file fs INDEX_FILE text) = fold index_line (getlines text) []"
  by (simp add: getStagingArea_def put_file_def fs_exists_def ifstream_open_def HEAD_INDEX_distinct)

text \<open>
  Claim C7, as amended.  For a map whose file names and hashes are words (not empty, no
  white space), \<^verbatim>\<open>setStagingArea\<close> followed by \<^verbatim>\<open>getStagingArea\<close> gives the map back,
  provided the index file can be opened for writing and for reading; and
  \<^verbatim>\<open>getStagingArea\<close> gives the empty map when there is no index file.
\<close>

theorem staging_index_roundtrip:
  "(good_map m \<and> ofstream_open fs INDEX_FILE \<and> can_read fs INDEX_FILE
      \<longrightarrow> getStagingArea (setStagingArea fs m) = m) \<and>
   (\<not> fs_exists fs INDEX_FILE \<longrightarrow> getStagingArea fs = [])"
  by (simp add: setStagingArea_def getStagingArea_put_index index_roundtrip)
     (simp add: getStagingArea_def)

theorem staging_index_roundtrip_witness:
  "good_map [(''a.txt'', ''1f''), (''b.txt'', ''2'')] \<and>
   ofstream_open fresh_repo INDEX_FILE \<and> can_read fresh_repo INDEX_FILE \<and>
   getStagingArea (setStagingArea fresh_repo [(''a.txt'', ''1f''), (''b.txt'', ''2'')])
     = [(''a.txt'', ''1f''), (''b.txt'', ''2'')] \<and>
   \<not> fs_exists (disk []) INDEX_FILE \<and> getStagingArea (disk []) = []"
proof -
  have 1: "good_map [(''a.txt'', ''1f''), (''b.txt'', ''2'')]"
    by code_simp
  have 2: "ofstream_open fresh_repo INDEX_FILE \<and> can_read fresh_repo INDEX_FILE"
    by code_simp
  have 3: "\<not> fs_exists (disk []) INDEX_FILE"
    by code_simp
  from staging_index_roundtrip [of "[(''a.txt'', ''1f''), (''b.txt'', ''2'')]" fresh_repo]
    staging_index_roundtrip [of "[]" "disk []"] 1 2 3
  show ?thesis by simp
qed

text \<open>
  Claim C7 as stated fails for a file name with a space in it: the entry
  \<^verbatim>\<open>"a b" -> 1f\<close> is written as the line \<^verbatim>\<open>a b 1f\<close> and read back as \<^verbatim>\<open>"a" -> b\<close>.
\<close>

theorem staging_index_roundtrip_counterexample:
  "is_map [(''a b'', ''1f'')] \<and>
   getStagingArea (setStagingArea fresh_repo [(''a b'', ''1f'')]) = [(''a'', ''b'')] \<and>
   map_of (getStagingArea (setStagingArea fresh_repo [(''a b'', ''1f'')])) ''a b'' = None"
  by code_simp

subsection \<open>A commit object read back\<close>

lemma commitString_layout:
  "commitString parentCommit message commitFiles =
     commit_header parentCommit message @ concat (map (\<lambda>e. file_line e @ [newline]) commitFiles)"
  unfolding commitString_def commit_header_def fold_out
  by (simp add: file_line_def case_prod_unfold)

lemma getlines_file_lines:
  "words_only files \<Longrightarrow>
   getlines (concat (map (\<lambda>e. file_line e @ [newline]) files)) = map file_line files"
proof (induction files)
  case Nil
  then show ?case by (simp add: getlines_Nil)
next
  case (Cons e files)
  from Cons.prems have kv: "is_word (fst e)" "is_word (snd e)" and rest: "words_only files"
    by (auto simp: words_only_def)
  have "newline \<notin> set (file_line e)"
    using is_word_no_newline [OF kv(1)] is_word_no_newline [OF kv(2)]
    by (simp add: file_line_def newline_def)
  from getlines_line [OF this] Cons.IH [OF rest] show ?case by simp
qed

lemma commit_file_line_file_line:
  "is_word (fst e) \<Longrightarrow> is_word (snd e) \<Longrightarrow>
   commit_file_line (file_line e) m = map_put (fst e) (snd e) m"
  using extract_pair_words [of "fst e" "snd e"]
  by (cases e) (simp add: commit_file_line_def file_line_def starts_with_def)

lemma fold_commit_file_lines:
  "words_only files \<Longrightarrow>
   fold commit_file_line (map file_line files) m
     = fold (\<lambda>(filename, hash). map_put filename hash) files m"
proof (induction files arbitrary: m)
  case Nil
  then show ?case by simp
next
  case (Cons e files)
  from Cons.prems have kv: "is_word (fst e)" "is_word (snd e)" and rest: "words_only files"
    by (auto simp: words_only_def)
  show ?case
    using Cons.IH [OF rest] commit_file_line_file_line [OF kv]
    by (simp add: case_prod_beta)
qed

lemma getlines_header_split:
  "getlines (commit_header p msg @ body) = getlines (commit_header p msg) @ getlines body"
proof -
  have "commit_header p msg = (''parent: '' @ p @ [newline] @ ''message: '' @ msg) @ [newline]"
    by (simp add: commit_header_def)
  then show ?thesis
    using getlines_split [of "''parent: '' @ p @ [newline] @ ''message: '' @ msg" body]
    by simp
qed

text \<open>Reading a commit text back: the lines of the header first, then the file lines.\<close>

lemma read_commitString:
  assumes "words_only files"
  shows "fold commit_file_line (getlines (commitString p msg files)) []
     = fold (\<lambda>(filename, hash). map_put filename hash) files
         (fold commit_file_line (getlines (commit_header p msg)) [])"
  unfolding commitString_layout getlines_header_split
  by (simp add: getlines_file_lines [OF assms] fold_commit_file_lines [OF assms])

lemma getlines_header:
  assumes "newline \<notin> set p" "newline \<notin> set msg"
  shows "getlines (commit_header p msg) = [''parent: '' @ p, ''message: '' @ msg]"
proof -
  have 1: "newline \<notin> set (''parent: '' @ p)" "newline \<notin> set (''message: '' @ msg)"
    using assms by (simp_all add: newline_def)
  have "commit_header p msg = (''parent: '' @ p) @ newline # ((''message: '' @ msg) @ newline # [])"
    by (simp add: commit_header_def)
  then show ?thesis
    using getlines_line [OF 1(1)] getlines_line [OF 1(2)] by (simp add: getlines_Nil)
qed

lemma header_no_files:
  assumes "newline \<notin> set p" "newline \<notin> set msg"
  shows "fold commit_file_line (getlines (commit_header p msg)) [] = []"
  unfolding getlines_header [OF assms]
  by (simp add: commit_file_line_def starts_with_def)

lemma read_commitString_exact:
  assumes "good_map files" "newline \<notin> set p" "newline \<notin> set msg"
  shows "fold commit_file_line (getlines (commitString p msg files)) [] = files"
  using assms(1) read_commitString [of files p msg] header_no_files [OF assms(2,3)]
  by (simp add: good_map_def fold_put_self)

lemma good_map_header: "good_map (fold commit_file_line (getlines text) [])"
  by (intro good_map_fold good_map_commit_file_line good_map_Nil)

lemma read_commitString_lookup:
  assumes "good_map files" "map_of files k = Some v"
  shows "map_of (fold commit_file_line (getlines (commitString p msg files)) []) k = Some v"
proof -
  from assms(1) have w: "words_only files" and d: "distinct (map fst files)"
    by (simp_all add: good_map_def is_map_distinct)
  show ?thesis
    unfolding read_commitString [OF w] map_of_fold_put_distinct [OF d]
    using assms(2) by (simp add: map_add_Some_iff)
qed

subsection \<open>Claims about \<^verbatim>\<open>getCommitFiles\<close>\<close>

lemma fold_commit_file_line_entries:
  "map_of (fold commit_file_line ls acc)
     = map_of acc ++ map_of (rev (List.map_filter
         (\<lambda>line. if starts_with ''file: '' line then extract_pair (drop 6 line) else None) ls))"
proof (induction ls arbitrary: acc)
  case Nil
  then show ?case by (simp add: map_filter_simps)
next
  case (Cons l ls)
  show ?case
    unfolding fold_simps Cons.IH
    by (auto simp: commit_file_line_def map_filter_simps map_of_map_put map_add_upd_left
        split: option.splits)
qed

text \<open>
  Claim C3, as amended.  \<^verbatim>\<open>getCommitFiles\<close> returns the empty map for the empty hash.
  For a non-empty hash it raises "Cannot find commit object" when the object file does
  not exist, and "Could not open file" when it exists but cannot be opened.  When the
  object can be read it never fails, whatever the text: it returns the map of the
  object's well-formed \<^verbatim>\<open>file: <filename> <hash>\<close> lines, a later line overriding an
  earlier one, and ignores every other line, so that an object written by \<^verbatim>\<open>commit\<close>
  with a parent and a message free of newlines gives back exactly its file map.  No
  test for a missing parent or message line exists.
\<close>

theorem getCommitFiles_result:
  "getCommitFiles fs [] = Inr [] \<and>
   (h \<noteq> [] \<and> \<not> fs_exists fs (path_append OBJECTS_DIR h)
      \<longrightarrow> getCommitFiles fs h = Inl (CannotFindCommit h)) \<and>
   (h \<noteq> [] \<and> fs_exists fs (path_append OBJECTS_DIR h) \<and>
    readFileContent fs (path_append OBJECTS_DIR h) = Inl e
      \<longrightarrow> getCommitFiles fs h = Inl e \<and> e = CouldNotOpen (path_append OBJECTS_DIR h)) \<and>
   (h \<noteq> [] \<and> readFileContent fs (path_append OBJECTS_DIR h) = Inr content
      \<longrightarrow> (\<exists>files. getCommitFiles fs h = Inr files \<and> good_map files \<and>
             map_of files = map_of (rev (file_entries content)))) \<and>
   (h \<noteq> [] \<and> readFileContent fs (path_append OBJECTS_DIR h) = Inr (commitString parent message files)
      \<and> good_map files \<and> newline \<notin> set parent \<and> newline \<notin> set message
      \<longrightarrow> getCommitFiles fs h = Inr files)"
proof -
  have ex: "fs_exists fs p" if "readFileContent fs p = Inr t" for p t
    using that by (auto simp: readFileContent_def ifstream_open_def fs_exists_def
        split: node.splits if_splits)
  have 1: "getCommitFiles fs [] = Inr []"
    by (simp add: getCommitFiles_def)
  have 2: "getCommitFiles fs h = Inl (CannotFindCommit h)"
    if "h \<noteq> []" "\<not> fs_exists fs (path_append OBJECTS_DIR h)"
    using that by (simp add: getCommitFiles_def)
  have 3: "getCommitFiles fs h = Inr (fold commit_file_line (getlines t) [])"
    if "h \<noteq> []" "readFileContent fs (path_append OBJECTS_DIR h) = Inr t" for t
    using that ex [OF that(2)] by (simp add: getCommitFiles_def)
  have 4: "getCommitFiles fs h = Inl e \<and> e = CouldNotOpen (path_append OBJECTS_DIR h)"
    if "h \<noteq> []" "fs_exists fs (path_append OBJECTS_DIR h)"
      "readFileContent fs (path_append OBJECTS_DIR h) = Inl e"
    using that by (auto simp: getCommitFiles_def readFileContent_def split: option.splits)
  have 5: "map_of (fold commit_file_line (getlines t) []) = map_of (rev (file_entries t))" for t
    by (simp add: fold_commit_file_line_entries file_entries_def)
  show ?thesis
    using 1 2 3 4 5 by (auto simp: good_map_header read_commitString_exact)
qed

theorem getCommitFiles_result_witness:
  "getCommitFiles one_commit_store [] = Inr [] \<and>
   \<not> fs_exists one_commit_store (path_append OBJECTS_DIR ''3b'') \<and>
   getCommitFiles one_commit_store ''3b'' = Inl (CannotFindCommit ''3b'') \<and>
   fs_exists sealed_store (path_append OBJECTS_DIR ''26'') \<and>
   readFileContent sealed_store (path_append OBJECTS_DIR ''26'')
     = Inl (CouldNotOpen ''.minigit/objects/26'') \<and>
   getCommitFiles sealed_store ''26'' = Inl (CouldNotOpen ''.minigit/objects/26'') \<and>
   readFileContent junk_store (path_append OBJECTS_DIR ''1f'') = Inr ''hello'' \<and>
   file_entries ''hello'' = [] \<and>
   (\<exists>files. getCommitFiles junk_store ''1f'' = Inr files \<and> good_map files \<and>
      map_of files = map_of (rev (file_entries ''hello''))) \<and>
   readFileContent one_commit_store (path_append OBJECTS_DIR ''26'')
     = Inr (commitString [] ''first'' [(''a.txt'', ''5'')]) \<and>
   good_map [(''a.txt'', ''5'')] \<and> newline \<notin> set ''first'' \<and>
   getCommitFiles one_commit_store ''26'' = Inr [(''a.txt'', ''5'')]"
proof -
  have 1: "\<not> fs_exists one_commit_store (path_append OBJECTS_DIR ''3b'')"
    by code_simp
  have 2: "readFileContent junk_store (path_append OBJECTS_DIR ''1f'') = Inr ''hello''"
    "file_entries ''hello'' = []"
    by code_simp+
  have 3: "readFileContent one_commit_store (path_append OBJECTS_DIR ''26'')
     = Inr (commitString [] ''first'' [(''a.txt'', ''5'')])"
    by code_simp
  have 4: "good_map [(''a.txt'', ''5'')]" "newline \<notin> set ''first''"
    by code_simp+
  have 5: "fs_exists sealed_store (path_append OBJECTS_DIR ''26'')"
    "readFileContent sealed_store (path_append OBJECTS_DIR ''26'')
       = Inl (CouldNotOpen ''.minigit/objects/26'')"
    by code_simp+
  from getCommitFiles_result [where fs = one_commit_store and h = "''3b''"]
    getCommitFiles_result [where fs = junk_store and h = "''1f''" and content = "''hello''"]
    getCommitFiles_result [where fs = one_commit_store and h = "''26''" and parent = "[]"
      and message = "''first''" and files = "[(''a.txt'', ''5'')]"]
    getCommitFiles_result [where fs = sealed_store and h = "''26''"
      and e = "CouldNotOpen ''.minigit/objects/26''"]
    1 2 3 4 5
  show ?thesis by simp
qed

text \<open>
  Claim C3 as stated fails where it promises an error for a commit object without its
  fields: the object \<^verbatim>\<open>1f\<close> of \<open>junk_store\<close> holds the text \<^verbatim>\<open>hello\<close>, no parent line
  and no message line, and \<^verbatim>\<open>getCommitFiles\<close> returns the empty map for it.
\<close>

theorem getCommitFiles_counterexample:
  "readFileContent junk_store (path_append OBJECTS_DIR ''1f'') = Inr ''hello'' \<and>
   getCommitFiles junk_store ''1f'' = Inr []"
  by code_simp

subsection \<open>Claims about storing content\<close>

lemma storeObject_hash: "storeObject hasher fs content = Inr (h, fs1) \<Longrightarrow> h = hashString hasher content"
  by (auto simp: storeObject_def Let_def split: if_splits sum.splits)

lemma storeObject_exists:
  "storeObject hasher fs content = Inr (h, fs1) \<Longrightarrow> fs_exists fs1 (path_append OBJECTS_DIR h)"
  by (auto simp: storeObject_def Let_def writeFileContent_def put_file_def fs_exists_def ofstream_open_def
      split: if_splits sum.splits)

lemma storeObject_status:
  "storeObject hasher fs content = Inr (h, fs1) \<Longrightarrow>
   \<not> status_error fs1 (path_append OBJECTS_DIR h)"
  by (auto simp: storeObject_def Let_def writeFileContent_def put_file_def status_error_def
      split: if_splits sum.splits)

lemma storeObject_again:
  assumes "storeObject hasher fs content = Inr (h, fs1)"
  shows "storeObject hasher fs1 content = Inr (h, fs1)"
  using storeObject_exists [OF assms] storeObject_hash [OF assms] storeObject_status [OF assms]
  by (simp add: storeObject_def)

lemma storeObject_one_copy:
  assumes st: "storeObject hasher fs content = Inr (h, fs1)"
    and wk: "well_keyed hasher fs"
    and free: "node fs (path_append OBJECTS_DIR h) = Missing \<or> node fs (path_append OBJECTS_DIR h) = File content"
    and k: "CHR ''/'' \<notin> set k"
  shows "node fs1 (path_append OBJECTS_DIR k) = File content \<longleftrightarrow> k = h"
proof -
  have h: "h = hashString hasher content" by (rule storeObject_hash [OF st])
  have hx: "is_hex h" unfolding h by (rule is_hex_hashString)
  have inj: "path_append OBJECTS_DIR k = path_append OBJECTS_DIR h \<longleftrightarrow> k = h"
    using k is_hex_no_slash [OF hx] by (simp add: object_path_plain)
  from st consider (kept) "fs1 = fs" "fs_exists fs (path_append OBJECTS_DIR h)"
    | (written) "fs1 = put_file fs (path_append OBJECTS_DIR h) content"
    by (auto simp: storeObject_def Let_def writeFileContent_def h split: if_splits sum.splits)
  then show ?thesis
  proof cases
    case kept
    with free have "node fs (path_append OBJECTS_DIR h) = File content"
      by (auto simp: fs_exists_def)
    then show ?thesis
      using wk k kept(1) unfolding well_keyed_def h by auto
  next
    case written
    show ?thesis
    proof (cases "k = h")
      case True
      then show ?thesis by (simp add: written put_file_def)
    next
      case False
      have "node fs (path_append OBJECTS_DIR k) \<noteq> File content"
        using wk k False unfolding well_keyed_def h by auto
      then show ?thesis using False inj by (simp add: written put_file_def)
    qed
  qed
qed

lemma writeFileContent_again:
  "writeFileContent fs p content = Inr fs1 \<Longrightarrow> writeFileContent fs1 p content = Inr fs1"
  by (auto simp: writeFileContent_def put_file_def ofstream_open_def split: if_splits)

text \<open>
  Claim C5.  When storing a content (steps 2 and 3 of \<^verbatim>\<open>add\<close>) has succeeded, storing
  the same content again returns the same hash and leaves the file system exactly as it
  was: the object exists, so nothing is written.  In a store whose objects are named by
  their hashes, and where the name of the content was free or already held it, the
  content then sits under exactly one name of the objects directory, its hash.  The
  unconditional write of \<^verbatim>\<open>commit\<close> (step 7), done a second time with the same text,
  changes nothing either.
\<close>

theorem store_twice:
  "(storeObject hasher fs content = Inr (h, fs1) \<longrightarrow>
      h = hashString hasher content \<and>
      storeObject hasher fs1 content = Inr (h, fs1) \<and>
      (well_keyed hasher fs \<and>
       (node fs (path_append OBJECTS_DIR h) = Missing \<or> node fs (path_append OBJECTS_DIR h) = File content)
         \<longrightarrow> (\<forall>k. CHR ''/'' \<notin> set k \<longrightarrow>
                (node fs1 (path_append OBJECTS_DIR k) = File content \<longleftrightarrow> k = h)))) \<and>
   (writeFileContent fs p content = Inr fs2 \<longrightarrow> writeFileContent fs2 p content = Inr fs2)"
  using storeObject_hash storeObject_again storeObject_one_copy writeFileContent_again
  by blast

theorem store_twice_witness:
  "storeObject length_hasher fresh_repo ''hello'' = Inr (''5'', hello_stored) \<and>
   ''5'' = hashString length_hasher ''hello'' \<and>
   storeObject length_hasher hello_stored ''hello'' = Inr (''5'', hello_stored) \<and>
   well_keyed length_hasher fresh_repo \<and>
   node fresh_repo (path_append OBJECTS_DIR ''5'') = Missing \<and>
   node hello_stored (path_append OBJECTS_DIR ''5'') = File ''hello'' \<and>
   node hello_stored (path_append OBJECTS_DIR ''6'') \<noteq> File ''hello'' \<and>
   writeFileContent fresh_repo ''.minigit/objects/5'' ''hello'' = Inr hello_stored \<and>
   writeFileContent hello_stored ''.minigit/objects/5'' ''hello'' = Inr hello_stored"
proof -
  have 1: "storeObject length_hasher fresh_repo ''hello'' = Inr (''5'', hello_stored)"
    by (simp add: storeObject_def Let_def hashString_def length_hasher_def hex_of_nat.simps
        hex_digit_def OBJECTS_DIR_eq path_append_def fs_exists_def fresh_repo_def disk_def
        writeFileContent_def ofstream_open_def hello_stored_def status_error_def)
  have 2: "well_keyed length_hasher fresh_repo"
    by (auto simp: well_keyed_def object_path_plain fresh_repo_def disk_def split: if_splits)
  have 3: "node fresh_repo (path_append OBJECTS_DIR ''5'') = Missing"
    by code_simp
  have 4: "writeFileContent fresh_repo ''.minigit/objects/5'' ''hello'' = Inr hello_stored"
    by (simp add: writeFileContent_def ofstream_open_def fresh_repo_def disk_def hello_stored_def)
  have 5: "hashString length_hasher ''hello'' = ''5''"
    by (simp add: hashString_def length_hasher_def hex_of_nat.simps hex_digit_def)
  from store_twice [of length_hasher fresh_repo "''hello''" "''5''" hello_stored
      "''.minigit/objects/5''" hello_stored] 1 2 3 4
  show ?thesis by (simp add: 5)
qed

subsection \<open>Claims about the effects of \<^verbatim>\<open>commit\<close>\<close>

lemma writeFileContent_cases:
  "writeFileContent fs p c = (if ofstream_open fs p then Inr (put_file fs p c) else Inl (CouldNotWrite p))"
  by (simp add: writeFileContent_def)

text \<open>The five ways through \<^verbatim>\<open>commit\<close> once something is staged.\<close>

lemma commit_paths:
  assumes staged: "getStagingArea fs \<noteq> []"
  shows "(\<exists>e. getHEAD fs = Inl e \<and> commit hasher message fs = ([], Some e, fs)) \<or>
    (\<exists>parent e. getHEAD fs = Inr parent \<and>
        commitFilesFor fs parent (getStagingArea fs) = Inl e \<and>
        commit hasher message fs = ([], Some e, fs)) \<or>
    (\<exists>parent files. getHEAD fs = Inr parent \<and>
        commitFilesFor fs parent (getStagingArea fs) = Inr files \<and>
        (let content = commitString parent message files;
             h = hashString hasher content;
             p = path_append OBJECTS_DIR h;
             fs1 = put_file fs p content;
             fs2 = put_file fs1 HEAD_FILE h
         in if \<not> ofstream_open fs p
            then commit hasher message fs = ([], Some (CouldNotWrite p), fs)
            else if \<not> ofstream_open fs HEAD_FILE
            then commit hasher message fs = ([], Some (CouldNotWrite HEAD_FILE), fs1)
            else commit hasher message fs = ([Committed h message], None, setStagingArea fs2 [])))"
proof (cases "getHEAD fs")
  case (Inl e)
  then show ?thesis using staged by (simp add: commit_def)
next
  case (Inr parent)
  note head = this
  show ?thesis
  proof (cases "commitFilesFor fs parent (getStagingArea fs)")
    case (Inl e)
    then show ?thesis using staged head by (simp add: commit_def)
  next
    case (Inr files)
    have "ofstream_open (put_file fs p c) HEAD_FILE = ofstream_open fs HEAD_FILE"
      if "p \<noteq> HEAD_FILE" for p c
      using that by (simp add: ofstream_open_def put_file_def)
    then show ?thesis
      using staged head Inr
      by (simp add: commit_def Let_def setHEAD_def writeFileContent_cases
          object_path_facts [OF is_hex_hashString])
  qed
qed

lemma getHEAD_error: "getHEAD fs = Inl e \<Longrightarrow> e = CouldNotOpen HEAD_FILE"
  by (auto simp: getHEAD_def readFileContent_def split: if_splits option.splits)

lemma getCommitFiles_error:
  "getCommitFiles fs h = Inl e \<Longrightarrow>
   e = CannotFindCommit h \<or> e = CouldNotOpen (path_append OBJECTS_DIR h)"
  by (auto simp: getCommitFiles_def Let_def readFileContent_def
      split: if_splits option.splits sum.splits)

lemma commitFilesFor_error:
  "commitFilesFor fs parent staged = Inl e \<Longrightarrow>
   e = CannotFindCommit parent \<or> e = CouldNotOpen (path_append OBJECTS_DIR parent)"
  by (auto simp: commitFilesFor_def split: if_splits sum.splits dest: getCommitFiles_error)

lemma node_setStagingArea: "p \<noteq> INDEX_FILE \<Longrightarrow> node (setStagingArea fs m) p = node fs p"
  by (simp add: setStagingArea_def put_file_def)

lemma flags_setStagingArea [simp]:
  "can_read (setStagingArea fs m) = can_read fs" "can_write (setStagingArea fs m) = can_write fs"
  by (simp_all add: setStagingArea_def put_file_def)

lemma status_setStagingArea [simp]: "can_stat (setStagingArea fs m) = can_stat fs"
  by (simp add: setStagingArea_def put_file_def)

lemma status_put_file [simp]: "can_stat (put_file fs p c) = can_stat fs"
  by (simp add: put_file_def)

lemma flags_put_file [simp]:
  "can_read (put_file fs p c) = can_read fs" "can_write (put_file fs p c) = can_write fs"
  by (simp_all add: put_file_def)

lemma node_put_file: "node (put_file fs p c) q = (if q = p then File c else node fs q)"
  by (simp add: put_file_def)

lemma staged_index_is_file:
  "getStagingArea fs \<noteq> [] \<Longrightarrow> (\<exists>c. node fs INDEX_FILE = File c) \<and> can_read fs INDEX_FILE"
  by (auto simp: getStagingArea_def ifstream_open_def split: if_splits option.splits node.splits)

lemma getStagingArea_cleared:
  assumes "ofstream_open fs INDEX_FILE"
  shows "getStagingArea (setStagingArea fs []) = []"
  using assms
  by (simp add: setStagingArea_def getStagingArea_def put_file_def ifstream_open_def
      index_text_Nil getlines_Nil)

text \<open>
  The order of the effects of \<^verbatim>\<open>commit\<close>: it writes the commit object, then HEAD, then
  saves an empty index, and each later effect happens only when the earlier ones
  succeeded.  For the outcome \<open>r\<close> of a commit: an exception leaves HEAD and the index
  file as they were; an exception other than the failed write of HEAD (so also the
  failed write of the object) leaves the whole file system unchanged; when the write of
  HEAD fails, the object has been written and nothing else; a commit that raises
  nothing ends in the state reached by the three steps in this order, with the object
  in the store, HEAD holding its hash and, when the index file can be opened for
  writing, an empty index.  Whenever HEAD has changed, it names an object that is in
  the store.
\<close>

theorem commit_effects_order:
  assumes r: "r = commit hasher message fs"
  shows "(raised r \<noteq> None \<longrightarrow>
            node (after r) HEAD_FILE = node fs HEAD_FILE \<and>
            node (after r) INDEX_FILE = node fs INDEX_FILE) \<and>
         (\<forall>e. raised r = Some e \<and> e \<noteq> CouldNotWrite HEAD_FILE \<longrightarrow> after r = fs) \<and>
         (raised r = Some (CouldNotWrite HEAD_FILE) \<longrightarrow>
            (\<exists>h content. is_hex h \<and> after r = put_file fs (path_append OBJECTS_DIR h) content)) \<and>
         (raised r = None \<and> getStagingArea fs \<noteq> [] \<longrightarrow>
            (\<exists>h content. h = hashString hasher content \<and>
               printed r = [Committed h message] \<and>
               after r = setStagingArea
                  (put_file (put_file fs (path_append OBJECTS_DIR h) content) HEAD_FILE h) [] \<and>
               node (after r) (path_append OBJECTS_DIR h) = File content \<and>
               node (after r) HEAD_FILE = File h \<and>
               (can_write fs INDEX_FILE \<longrightarrow> getStagingArea (after r) = []))) \<and>
         (node (after r) HEAD_FILE \<noteq> node fs HEAD_FILE \<longrightarrow>
            (\<exists>h content. node (after r) HEAD_FILE = File h \<and>
               node (after r) (path_append OBJECTS_DIR h) = File content))"
proof (cases "getStagingArea fs = []")
  case True
  then have "r = ([NothingToCommit], None, fs)" by (simp add: r commit_def)
  then show ?thesis using True by simp
next
  case staged: False
  from commit_paths [OF staged, of hasher message]
  consider (head) e where "getHEAD fs = Inl e" "r = ([], Some e, fs)"
    | (files) parent e where "commitFilesFor fs parent (getStagingArea fs) = Inl e"
        "r = ([], Some e, fs)"
    | (rest) parent files where "getHEAD fs = Inr parent"
        "commitFilesFor fs parent (getStagingArea fs) = Inr files"
    unfolding r by blast
  then show ?thesis
  proof cases
    case head
    from getHEAD_error [OF head(1)] head(2) show ?thesis by simp
  next
    case files
    from commitFilesFor_error [OF files(1)] files(2) show ?thesis by auto
  next
    case rest
    define content where "content = commitString parent message files"
    define h where "h = hashString hasher content"
    define p where "p = path_append OBJECTS_DIR h"
    have hx: "is_hex h" unfolding h_def by (rule is_hex_hashString)
    note pf = object_path_facts [OF hx, folded p_def]
    from commit_paths [OF staged, of hasher message] rest
    have paths: "if \<not> ofstream_open fs p
            then r = ([], Some (CouldNotWrite p), fs)
            else if \<not> ofstream_open fs HEAD_FILE
            then r = ([], Some (CouldNotWrite HEAD_FILE), put_file fs p content)
            else r = ([Committed h message], None,
                      setStagingArea (put_file (put_file fs p content) HEAD_FILE h) [])"
      unfolding r by (simp add: Let_def content_def h_def p_def)
    show ?thesis
    proof (cases "ofstream_open fs p")
      case False
      with paths have "r = ([], Some (CouldNotWrite p), fs)" by simp
      then show ?thesis using pf by simp
    next
      case obj: True
      show ?thesis
      proof (cases "ofstream_open fs HEAD_FILE")
        case False
        with paths obj have "r = ([], Some (CouldNotWrite HEAD_FILE), put_file fs p content)"
          by simp
        then show ?thesis using pf hx
          by (auto simp: node_put_file HEAD_INDEX_distinct p_def)
      next
        case True
        with paths obj have rr: "r = ([Committed h message], None,
              setStagingArea (put_file (put_file fs p content) HEAD_FILE h) [])"
          by simp
        have 1: "node (after r) p = File content"
          using pf by (simp add: rr node_setStagingArea node_put_file)
        have 2: "node (after r) HEAD_FILE = File h"
          by (simp add: rr node_setStagingArea node_put_file HEAD_INDEX_distinct)
        have 3: "getStagingArea (after r) = []" if "can_write fs INDEX_FILE"
        proof -
          from staged_index_is_file [OF staged] that pf
          have "ofstream_open (put_file (put_file fs p content) HEAD_FILE h) INDEX_FILE"
            by (auto simp: ofstream_open_def node_put_file HEAD_INDEX_distinct)
          then show ?thesis unfolding rr by (simp add: getStagingArea_cleared)
        qed
        show ?thesis
          using 1 2 3 rr by (auto simp: h_def p_def)
      qed
    qed
  qed
qed

theorem commit_effects_order_witness:
  "raised (commit length_hasher ''first'' object_locked) = Some (CouldNotWrite ''.minigit/objects/26'') \<and>
   after (commit length_hasher ''first'' object_locked) = object_locked \<and>
   raised (commit length_hasher ''first'' head_locked) = Some (CouldNotWrite HEAD_FILE) \<and>
   node (after (commit length_hasher ''first'' head_locked)) HEAD_FILE = node head_locked HEAD_FILE \<and>
   node (after (commit length_hasher ''first'' head_locked)) INDEX_FILE = node head_locked INDEX_FILE \<and>
   (\<exists>h content. is_hex h \<and>
      after (commit length_hasher ''first'' head_locked)
        = put_file head_locked (path_append OBJECTS_DIR h) content) \<and>
   raised (commit length_hasher ''first'' staged_repo) = None \<and>
   getStagingArea staged_repo \<noteq> [] \<and> can_write staged_repo INDEX_FILE \<and>
   printed (commit length_hasher ''first'' staged_repo) = [Committed ''26'' ''first''] \<and>
   node (after (commit length_hasher ''first'' staged_repo)) HEAD_FILE = File ''26'' \<and>
   node (after (commit length_hasher ''first'' staged_repo)) HEAD_FILE \<noteq> node staged_repo HEAD_FILE \<and>
   node (after (commit length_hasher ''first'' staged_repo)) (path_append OBJECTS_DIR ''26'')
     = File ''parent: \<newline>message: first\<newline>file: a.txt 5\<newline>'' \<and>
   getStagingArea (after (commit length_hasher ''first'' staged_repo)) = []"
proof -
  have 1: "raised (commit length_hasher ''first'' object_locked)
      = Some (CouldNotWrite ''.minigit/objects/26'')"
    by code_simp
  have 2: "raised (commit length_hasher ''first'' head_locked) = Some (CouldNotWrite HEAD_FILE)"
    by code_simp
  have 3: "raised (commit length_hasher ''first'' staged_repo) = None"
    "getStagingArea staged_repo \<noteq> []" "can_write staged_repo INDEX_FILE"
    "printed (commit length_hasher ''first'' staged_repo) = [Committed ''26'' ''first'']"
    by code_simp+
  have 4: "node (after (commit length_hasher ''first'' staged_repo)) HEAD_FILE = File ''26''"
    "node (after (commit length_hasher ''first'' staged_repo)) HEAD_FILE \<noteq> node staged_repo HEAD_FILE"
    "node (after (commit length_hasher ''first'' staged_repo)) (path_append OBJECTS_DIR ''26'')
     = File ''parent: \<newline>message: first\<newline>file: a.txt 5\<newline>''"
    by code_simp+
  have 5: "CouldNotWrite ''.minigit/objects/26'' \<noteq> CouldNotWrite HEAD_FILE"
    by (simp add: HEAD_FILE_eq)
  note a = commit_effects_order [OF refl, of length_hasher "''first''" object_locked]
  note b = commit_effects_order [OF refl, of length_hasher "''first''" head_locked]
  note c = commit_effects_order [OF refl, of length_hasher "''first''" staged_repo]
  from a 1 5 have A: "after (commit length_hasher ''first'' object_locked) = object_locked"
    by blast
  from b 2 have B: "node (after (commit length_hasher ''first'' head_locked)) HEAD_FILE = node head_locked HEAD_FILE"
   "node (after (commit length_hasher ''first'' head_locked)) INDEX_FILE = node head_locked INDEX_FILE"
   "\<exists>h content. is_hex h \<and>
      after (commit length_hasher ''first'' head_locked)
        = put_file head_locked (path_append OBJECTS_DIR h) content"
    by simp_all
  from c 3 have C: "getStagingArea (after (commit length_hasher ''first'' staged_repo)) = []"
    by auto
  from 1 2 3 4 A B C show ?thesis by simp
qed

text \<open>
  Claim C2 says that every successful commit ends by clearing the staging index.  The
  code does not always do so.  The last step is \<^verbatim>\<open>setStagingArea({})\<close>, which opens the
  index file and writes to the stream without testing it, where \<^verbatim>\<open>writeFileContent\<close>,
  called two and one steps before for the object and for HEAD, throws when its stream
  is not open.  On a repository with \<^verbatim>\<open>a.txt\<close> staged whose index file cannot be opened
  for writing, \<^verbatim>\<open>commit -m first\<close> writes the object and HEAD, reports the commit, raises
  nothing, so that \<^verbatim>\<open>main\<close> returns 0; the index read back afterwards still holds the entry
  of \<^verbatim>\<open>a.txt\<close>.  \<^verbatim>\<open>writeFileContent\<close> on the same path in the same state raises.
\<close>

theorem commit_index_not_cleared:
  "getStagingArea index_locked = [(''a.txt'', ''5'')] \<and>
   raised (commit length_hasher ''first'' index_locked) = None \<and>
   printed (commit length_hasher ''first'' index_locked) = [Committed ''26'' ''first''] \<and>
   node (after (commit length_hasher ''first'' index_locked)) (path_append OBJECTS_DIR ''26'')
     = File (commitString [] ''first'' [(''a.txt'', ''5'')]) \<and>
   node (after (commit length_hasher ''first'' index_locked)) HEAD_FILE = File ''26'' \<and>
   getStagingArea (after (commit length_hasher ''first'' index_locked)) = [(''a.txt'', ''5'')] \<and>
   fst (finish (commit length_hasher ''first'' index_locked)) = 0 \<and>
   writeFileContent index_locked INDEX_FILE [] = Inl (CouldNotWrite INDEX_FILE)"
proof -
  have "\<not> ofstream_open index_locked INDEX_FILE"
    by code_simp
  then have "writeFileContent index_locked INDEX_FILE [] = Inl (CouldNotWrite INDEX_FILE)"
    by (simp add: writeFileContent_def)
  moreover have "getStagingArea index_locked = [(''a.txt'', ''5'')] \<and>
   raised (commit length_hasher ''first'' index_locked) = None \<and>
   printed (commit length_hasher ''first'' index_locked) = [Committed ''26'' ''first''] \<and>
   node (after (commit length_hasher ''first'' index_locked)) (path_append OBJECTS_DIR ''26'')
     = File (commitString [] ''first'' [(''a.txt'', ''5'')]) \<and>
   node (after (commit length_hasher ''first'' index_locked)) HEAD_FILE = File ''26'' \<and>
   getStagingArea (after (commit length_hasher ''first'' index_locked)) = [(''a.txt'', ''5'')] \<and>
   fst (finish (commit length_hasher ''first'' index_locked)) = 0"
    by code_simp
  ultimately show ?thesis by simp
qed

subsection \<open>Claims about the commit object\<close>

lemma commitString_object_text:
  "commitString parent message files = commit_object_text parent message files"
  by (simp add: commitString_layout commit_header_def commit_object_text_def comp_def)

lemma good_map_commitFilesFor:
  "commitFilesFor fs parent (getStagingArea fs) = Inr files \<Longrightarrow> good_map files"
proof -
  assume a: "commitFilesFor fs parent (getStagingArea fs) = Inr files"
  then obtain inherited where
    inh: "(if parent \<noteq> [] then getCommitFiles fs parent else Inr []) = Inr inherited"
    and files: "files = fold (\<lambda>(filename, hash). map_put filename hash) (getStagingArea fs) inherited"
    by (auto simp: commitFilesFor_def split: sum.splits)
  from inh have "good_map inherited"
    by (auto split: if_splits intro: good_map_getCommitFiles good_map_Nil)
  moreover have "words_only (getStagingArea fs)"
    using good_map_getStagingArea [of fs] by (simp add: good_map_def)
  ultimately show ?thesis unfolding files by (rule good_map_put_all)
qed

text \<open>A successful commit, spelled out.\<close>

lemma commit_success:
  assumes ok: "raised (commit hasher message fs) = None" and staged: "getStagingArea fs \<noteq> []"
  obtains parent files where
    "getHEAD fs = Inr parent"
    "commitFilesFor fs parent (getStagingArea fs) = Inr files"
    "ofstream_open fs (path_append OBJECTS_DIR (hashString hasher (commitString parent message files)))"
    "ofstream_open fs HEAD_FILE"
    "commit hasher message fs =
       ([Committed (hashString hasher (commitString parent message files)) message], None,
        setStagingArea
          (put_file
             (put_file fs
                (path_append OBJECTS_DIR (hashString hasher (commitString parent message files)))
                (commitString parent message files))
             HEAD_FILE (hashString hasher (commitString parent message files))) [])"
proof -
  from commit_paths [OF staged, of hasher message] ok
  obtain parent files where 1: "getHEAD fs = Inr parent"
    "commitFilesFor fs parent (getStagingArea fs) = Inr files"
    and 2: "(let content = commitString parent message files;
             h = hashString hasher content;
             p = path_append OBJECTS_DIR h;
             fs1 = put_file fs p content;
             fs2 = put_file fs1 HEAD_FILE h
         in if \<not> ofstream_open fs p
            then commit hasher message fs = ([], Some (CouldNotWrite p), fs)
            else if \<not> ofstream_open fs HEAD_FILE
            then commit hasher message fs = ([], Some (CouldNotWrite HEAD_FILE), fs1)
            else commit hasher message fs = ([Committed h message], None, setStagingArea fs2 []))"
    by auto
  from 2 ok have "ofstream_open fs (path_append OBJECTS_DIR (hashString hasher (commitString parent message files)))"
    "ofstream_open fs HEAD_FILE"
    by (auto simp: Let_def split: if_splits)
  with 2 1 that show ?thesis by (simp add: Let_def)
qed

lemma node_after_commit:
  assumes "is_hex h"
  shows "node (setStagingArea (put_file (put_file fs (path_append OBJECTS_DIR h) content) HEAD_FILE h) m)
            (path_append OBJECTS_DIR h) = File content"
    and "node (setStagingArea (put_file (put_file fs (path_append OBJECTS_DIR h) content) HEAD_FILE h) m)
            HEAD_FILE = File h"
  using object_path_facts [OF assms]
  by (simp_all add: node_setStagingArea node_put_file HEAD_INDEX_distinct)

text \<open>
  Claim C6.  A successful commit stores, under the hash of its text, the object laid out
  as the specification says: the line \<^verbatim>\<open>parent: \<close> with the content of HEAD (empty for
  the first commit), the line \<^verbatim>\<open>message: \<close> with the message, then one line
  \<^verbatim>\<open>file: <filename> <hash>\<close> per entry of the file map, in strictly increasing order
  of file names.  The hash printed and written to HEAD is the hash of exactly this text,
  so a commit with the same message in any state with the same HEAD and the same file
  map (compared as mappings) gets the same hash.
\<close>

theorem commit_object_layout:
  assumes r: "r = commit hasher message fs"
    and ok: "raised r = None" and staged: "getStagingArea fs \<noteq> []"
  shows "\<exists>parent snapshot h.
     getHEAD fs = Inr parent \<and> snapshot_of fs = Inr snapshot \<and>
     sorted_wrt (<) (map fst snapshot) \<and>
     h = hashString hasher (commit_object_text parent message snapshot) \<and>
     printed r = [Committed h message] \<and>
     node (after r) (path_append OBJECTS_DIR h) = File (commit_object_text parent message snapshot) \<and>
     node (after r) HEAD_FILE = File h \<and>
     (\<forall>fs'. raised (commit hasher message fs') = None \<and> getStagingArea fs' \<noteq> [] \<and>
            getHEAD fs' = Inr parent \<and>
            (\<exists>snapshot'. snapshot_of fs' = Inr snapshot' \<and> map_of snapshot' = map_of snapshot)
        \<longrightarrow> printed (commit hasher message fs') = [Committed h message])"
proof -
  from ok staged obtain parent files where
    head: "getHEAD fs = Inr parent"
    and files: "commitFilesFor fs parent (getStagingArea fs) = Inr files"
    and c: "commit hasher message fs =
       ([Committed (hashString hasher (commitString parent message files)) message], None,
        setStagingArea
          (put_file
             (put_file fs
                (path_append OBJECTS_DIR (hashString hasher (commitString parent message files)))
                (commitString parent message files))
             HEAD_FILE (hashString hasher (commitString parent message files))) [])"
    unfolding r by (rule commit_success)
  define h where "h = hashString hasher (commitString parent message files)"
  have hx: "is_hex h" unfolding h_def by (rule is_hex_hashString)
  have snap: "snapshot_of fs = Inr files" by (simp add: snapshot_of_def head files)
  have gm: "good_map files" by (rule good_map_commitFilesFor [OF files])
  have same: "printed (commit hasher message fs') = [Committed h message]"
    if ok': "raised (commit hasher message fs') = None" and staged': "getStagingArea fs' \<noteq> []"
      and head': "getHEAD fs' = Inr parent"
      and snap': "snapshot_of fs' = Inr files'" and eq: "map_of files' = map_of files"
    for fs' files'
  proof -
    from ok' staged' obtain parent' files'' where
      h2: "getHEAD fs' = Inr parent'"
      and f2: "commitFilesFor fs' parent' (getStagingArea fs') = Inr files''"
      and c2: "printed (commit hasher message fs')
          = [Committed (hashString hasher (commitString parent' message files'')) message]"
      by (rule commit_success) simp
    from h2 head' have p: "parent' = parent" by simp
    from snap' h2 f2 have "files'' = files'" by (simp add: snapshot_of_def)
    moreover have "good_map files''" by (rule good_map_commitFilesFor [OF f2])
    ultimately have "files' = files"
      using gm eq by (auto simp: good_map_def intro: is_map_unique)
    then show ?thesis using c2 p \<open>files'' = files'\<close> by (simp add: h_def)
  qed
  show ?thesis
    using head snap gm same node_after_commit [OF hx, of fs "commitString parent message files" "[]"]
    unfolding r c h_def [symmetric]
    by (auto simp: commitString_object_text good_map_def is_map_def h_def)
qed

theorem commit_object_layout_witness:
  "raised (commit length_hasher ''first'' staged_repo) = None \<and>
   getStagingArea staged_repo \<noteq> [] \<and>
   getHEAD staged_repo = Inr [] \<and>
   snapshot_of staged_repo = Inr [(''a.txt'', ''5'')] \<and>
   commit_object_text [] ''first'' [(''a.txt'', ''5'')]
     = ''parent: \<newline>message: first\<newline>file: a.txt 5\<newline>'' \<and>
   printed (commit length_hasher ''first'' staged_repo) = [Committed ''26'' ''first''] \<and>
   node (after (commit length_hasher ''first'' staged_repo)) (path_append OBJECTS_DIR ''26'')
     = File (commit_object_text [] ''first'' [(''a.txt'', ''5'')]) \<and>
   node (after (commit length_hasher ''first'' staged_repo)) HEAD_FILE = File ''26'' \<and>
   raised (commit length_hasher ''first'' noted_repo) = None \<and>
   getStagingArea noted_repo \<noteq> [] \<and>
   getHEAD noted_repo = Inr [] \<and>
   snapshot_of noted_repo = Inr [(''a.txt'', ''5'')] \<and>
   printed (commit length_hasher ''first'' noted_repo) = [Committed ''26'' ''first'']"
proof -
  have 1: "raised (commit length_hasher ''first'' staged_repo) = None"
    "getStagingArea staged_repo \<noteq> []"
    by code_simp+
  have 2: "getHEAD staged_repo = Inr []" "snapshot_of staged_repo = Inr [(''a.txt'', ''5'')]"
    by code_simp+
  have 3: "commit_object_text [] ''first'' [(''a.txt'', ''5'')]
     = ''parent: \<newline>message: first\<newline>file: a.txt 5\<newline>''"
    by code_simp
  have 4: "hashString length_hasher ''parent: \<newline>message: first\<newline>file: a.txt 5\<newline>'' = ''26''"
    by code_simp
  have 5: "raised (commit length_hasher ''first'' noted_repo) = None"
    "getStagingArea noted_repo \<noteq> []"
    "getHEAD noted_repo = Inr []"
    "snapshot_of noted_repo = Inr [(''a.txt'', ''5'')]"
    by code_simp+
  from commit_object_layout [OF refl 1]
  obtain parent snapshot h where
    a: "getHEAD staged_repo = Inr parent" "snapshot_of staged_repo = Inr snapshot"
    and b: "h = hashString length_hasher (commit_object_text parent ''first'' snapshot)"
    and c: "printed (commit length_hasher ''first'' staged_repo) = [Committed h ''first'']"
      "node (after (commit length_hasher ''first'' staged_repo)) (path_append OBJECTS_DIR h)
        = File (commit_object_text parent ''first'' snapshot)"
      "node (after (commit length_hasher ''first'' staged_repo)) HEAD_FILE = File h"
    and d: "\<forall>fs'. raised (commit length_hasher ''first'' fs') = None \<and> getStagingArea fs' \<noteq> [] \<and>
            getHEAD fs' = Inr parent \<and>
            (\<exists>snapshot'. snapshot_of fs' = Inr snapshot' \<and> map_of snapshot' = map_of snapshot)
        \<longrightarrow> printed (commit length_hasher ''first'' fs') = [Committed h ''first'']"
    by blast
  from a 2 have e: "parent = []" "snapshot = [(''a.txt'', ''5'')]" by simp_all
  from b e 3 4 have f: "h = ''26''" by simp
  from d 5 e have g: "printed (commit length_hasher ''first'' noted_repo) = [Committed h ''first'']"
    by blast
  from 1 2 3 5 c g show ?thesis unfolding e f by simp
qed

subsection \<open>The loop of \<^verbatim>\<open>add\<close>\<close>

lemma grows_refl: "grows hasher fs fs"
  by (simp add: grows_def)

lemma grows_trans: "grows hasher a b \<Longrightarrow> grows hasher b c \<Longrightarrow> grows hasher a c"
  unfolding grows_def by (metis node.distinct(3))

lemma grows_kept: "grows hasher fs fs' \<Longrightarrow> node fs p \<noteq> Missing \<Longrightarrow> node fs' p = node fs p"
  unfolding grows_def by metis

lemma grows_repo_files:
  assumes "grows hasher fs fs'"
  shows "node fs' HEAD_FILE = node fs HEAD_FILE" "node fs' INDEX_FILE = node fs INDEX_FILE"
  using assms object_path_facts [OF is_hex_hashString]
  unfolding grows_def by metis+

lemma grows_flags: "grows hasher fs fs' \<Longrightarrow> can_read fs' = can_read fs \<and> can_write fs' = can_write fs"
  by (simp add: grows_def)


lemma storeObject_grows:
  "storeObject hasher fs content = Inr (h, fs') \<Longrightarrow> grows hasher fs fs'"
  using object_path_facts(3) [OF is_hex_hashString, of hasher content]
  by (auto simp: storeObject_def Let_def writeFileContent_def grows_def put_file_def fs_exists_def
      split: if_splits)

lemma say_simps [simp]:
  "fst (say ev r) = ev # fst r" "snd (say ev r) = snd r"
  by (simp_all add: say_def)

text \<open>Induction along the loop of \<^verbatim>\<open>add\<close>: a name is skipped with a warning, or an
  exception ends the loop, or the file is stored and staged.\<close>

lemma add_loop_induct [case_names Nil Skip Fail Step]:
  assumes nil: "\<And>staged fs. P [] staged fs"
    and skip: "\<And>f rest staged fs.
        \<not> fs_exists fs f \<or> is_directory fs f \<Longrightarrow>
        add_loop hasher (f # rest) staged fs
          = say (if \<not> fs_exists fs f then FileNotFound f else CannotAddDirectory f)
              (add_loop hasher rest staged fs) \<Longrightarrow>
        P rest staged fs \<Longrightarrow> P (f # rest) staged fs"
    and fail: "\<And>f rest staged fs e.
        status_error fs f \<or>
          (fs_exists fs f \<and> \<not> is_directory fs f \<and>
           (readFileContent fs f = Inl e \<or>
            (\<exists>c. readFileContent fs f = Inr c \<and> storeObject hasher fs c = Inl e))) \<Longrightarrow>
        add_loop hasher (f # rest) staged fs = ([], Some e, staged, fs) \<Longrightarrow>
        P (f # rest) staged fs"
    and step: "\<And>f rest staged fs c h fs1.
        fs_exists fs f \<Longrightarrow> \<not> is_directory fs f \<Longrightarrow>
        readFileContent fs f = Inr c \<Longrightarrow> storeObject hasher fs c = Inr (h, fs1) \<Longrightarrow>
        add_loop hasher (f # rest) staged fs
          = say (Staged f) (add_loop hasher rest (map_put f h staged) fs1) \<Longrightarrow>
        P rest (map_put f h staged) fs1 \<Longrightarrow> P (f # rest) staged fs"
  shows "P names staged0 fs0"
proof -
  have "\<forall>staged fs. P names staged fs"
  proof (induction names)
    case Nil
    show ?case by (simp add: nil)
  next
    case (Cons f names)
    have "P (f # names) staged fs" if known: "\<not> status_error fs f" for staged fs
    proof (cases "\<not> fs_exists fs f \<or> is_directory fs f")
      case True
      have "P names staged fs" using Cons.IH by simp
      from skip [OF True _ this] True known show ?thesis by auto
    next
      case False
      then have ex: "fs_exists fs f" "\<not> is_directory fs f" by simp_all
      show ?thesis
      proof (cases "readFileContent fs f")
        case (Inl e)
        show ?thesis
          by (rule fail [of fs f e]) (use ex Inl known in simp_all)
      next
        case (Inr c)
        show ?thesis
        proof (cases "storeObject hasher fs c")
          case (Inl e)
          show ?thesis
            by (rule fail [of fs f e]) (use ex Inr Inl known in simp_all)
        next
          case st: (Inr hf)
          obtain h fs1 where hf: "hf = (h, fs1)" by (cases hf)
          have "P names (map_put f h staged) fs1" using Cons.IH by simp
          from step [OF ex Inr st [unfolded hf] _ this] ex Inr st hf known
          show ?thesis by simp
        qed
      qed
    qed
    moreover have "P (f # names) staged fs" if "status_error fs f" for staged fs
      by (rule fail [of fs f "FilesystemError f"]) (use that in simp_all)
    ultimately show ?case by blast
  qed
  then show ?thesis by simp
qed

lemma add_loop_grows: "grows hasher fs (loop_fs (add_loop hasher names staged fs))"
proof (induction names staged fs rule: add_loop_induct [where hasher = hasher])
  case (Step f rest staged fs c h fs1)
  from storeObject_grows [OF Step(4)] Step(5,6) show ?case
    by (auto intro: grows_trans)
qed (simp_all add: grows_refl)

lemma readFileContent_Inr:
  "readFileContent fs p = Inr c \<longleftrightarrow> (p \<noteq> [] \<and> node fs p = File c \<and> can_read fs p)"
  by (auto simp: readFileContent_def ifstream_open_def split: node.splits)




lemma add_loop_is_map:
  "is_map staged \<Longrightarrow> is_map (loop_staged (add_loop hasher names staged fs))"
  by (induction names staged fs rule: add_loop_induct [where hasher = hasher])
     (simp_all add: is_map_map_put)

lemma add_loop_words:
  "words_only staged \<Longrightarrow> \<forall>f \<in> set names. \<forall>c \<in> set f. \<not> isspace c \<Longrightarrow>
   words_only (loop_staged (add_loop hasher names staged fs))"
proof (induction names staged fs rule: add_loop_induct [where hasher = hasher])
  case (Step f rest staged fs c h fs1)
  from Step(1) Step(8) have "is_word f" by (simp add: is_word_def fs_exists_def)
  moreover have "is_word h"
    using storeObject_hash [OF Step(4)] is_hex_hashString by (auto intro: is_hex_is_word)
  ultimately have "words_only (map_put f h staged)"
    using Step(7) by (simp add: words_only_map_put)
  with Step show ?case by simp
qed simp_all

lemma add_loop_other:
  "k \<notin> set names \<Longrightarrow> map_of (loop_staged (add_loop hasher names staged fs)) k = map_of staged k"
  by (induction names staged fs rule: add_loop_induct [where hasher = hasher])
     (simp_all add: map_of_map_put)

lemma add_loop_old:
  "map_of staged k \<noteq> None \<Longrightarrow> map_of (loop_staged (add_loop hasher names staged fs)) k \<noteq> None"
  by (induction names staged fs rule: add_loop_induct [where hasher = hasher])
     (simp_all add: map_of_map_put)

lemma add_loop_new:
  "map_of (loop_staged (add_loop hasher names staged fs)) k = Some v \<Longrightarrow>
   map_of staged k = Some v \<or>
   (k \<in> set names \<and> k \<noteq> [] \<and>
    (\<exists>c. node (loop_fs (add_loop hasher names staged fs)) k = File c \<and> v = hashString hasher c))"
proof (induction names staged fs rule: add_loop_induct [where hasher = hasher])
  case (Step f rest staged fs c h fs1)
  let ?r = "add_loop hasher rest (map_put f h staged) fs1"
  from Step(7) Step(5) have "map_of (loop_staged ?r) k = Some v" by simp
  from Step(6) [OF this] consider
    (old) "map_of (map_put f h staged) k = Some v"
    | (new) "k \<in> set rest" "k \<noteq> []" "\<exists>c. node (loop_fs ?r) k = File c \<and> v = hashString hasher c"
    by blast
  then show ?case
  proof cases
    case old
    show ?thesis
    proof (cases "k = f")
      case True
      from Step(3) have "f \<noteq> []" "node fs f = File c" by (simp_all add: readFileContent_Inr)
      then have "node fs1 f = File c" using grows_kept [OF storeObject_grows [OF Step(4)]] by simp
      then have "node (loop_fs ?r) f = File c"
        using grows_kept [OF add_loop_grows [of hasher fs1 rest "map_put f h staged"]] by simp
      moreover from old True have "v = h" by (simp add: map_of_map_put)
      ultimately show ?thesis
        using True \<open>f \<noteq> []\<close> storeObject_hash [OF Step(4)] Step(5) by simp
    next
      case False
      with old show ?thesis by (simp add: map_of_map_put)
    qed
  next
    case new
    then show ?thesis using Step(5) by simp
  qed
qed auto




subsection \<open>Claims about \<^verbatim>\<open>add\<close>\<close>

lemma add_outcome:
  "printed (add hasher names fs) = fst (add_loop hasher names (getStagingArea fs) fs)"
  "raised (add hasher names fs) = loop_raised (add_loop hasher names (getStagingArea fs) fs)"
  "after (add hasher names fs) =
     (if loop_raised (add_loop hasher names (getStagingArea fs) fs) = None
      then setStagingArea (loop_fs (add_loop hasher names (getStagingArea fs) fs))
             (loop_staged (add_loop hasher names (getStagingArea fs) fs))
      else loop_fs (add_loop hasher names (getStagingArea fs) fs))"
  by (auto simp: add_def split: prod.splits option.splits)

lemma getStagingArea_same:
  "node fs' INDEX_FILE = node fs INDEX_FILE \<Longrightarrow> can_read fs' INDEX_FILE = can_read fs INDEX_FILE \<Longrightarrow>
   getStagingArea fs' = getStagingArea fs"
  by (simp add: getStagingArea_def fs_exists_def ifstream_open_def cong: node.case_cong)

lemma getHEAD_same:
  "node fs' HEAD_FILE = node fs HEAD_FILE \<Longrightarrow> can_read fs' HEAD_FILE = can_read fs HEAD_FILE \<Longrightarrow>
   getHEAD fs' = getHEAD fs"
  by (simp add: getHEAD_def fs_exists_def readFileContent_def ifstream_open_def cong: node.case_cong)

text \<open>The index after a save: what was given, read back; or the old index, when the
  file cannot be opened.\<close>

lemma getStagingArea_saved:
  "getStagingArea (setStagingArea fs m) =
     (if ofstream_open fs INDEX_FILE \<and> can_read fs INDEX_FILE
      then fold index_line (getlines (index_text m)) []
      else getStagingArea fs)"
proof (cases "ofstream_open fs INDEX_FILE")
  case True
  show ?thesis
  proof (cases "can_read fs INDEX_FILE")
    case r: True
    with True show ?thesis by (simp add: setStagingArea_def getStagingArea_put_index)
  next
    case False
    with True show ?thesis
      by (simp add: setStagingArea_def getStagingArea_def ifstream_open_def put_file_def
          split: node.splits)
  qed
next
  case False
  then show ?thesis by (simp add: setStagingArea_def)
qed

text \<open>Reading an index text back never loses the key of a well-formed line.\<close>

lemma index_line_keeps: "map_of m k \<noteq> None \<Longrightarrow> map_of (index_line l m) k \<noteq> None"
  by (simp add: index_line_def map_of_map_put split: option.splits)

lemma fold_index_line_keeps:
  "map_of m k \<noteq> None \<Longrightarrow> map_of (fold index_line ls m) k \<noteq> None"
proof (induction ls arbitrary: m)
  case Nil
  then show ?case by simp
next
  case (Cons l ls)
  from Cons.IH [OF index_line_keeps [OF Cons.prems]] show ?case by simp
qed

lemma index_text_append: "index_text (xs @ ys) = index_text xs @ index_text ys"
  unfolding index_text_def fold_out by simp

lemma index_text_ends: "index_text xs = [] \<or> last (index_text xs) = newline"
  unfolding index_text_def fold_out
  by (induction xs rule: rev_induct) (auto split: prod.splits)

lemma getlines_append:
  assumes "a = [] \<or> last a = newline"
  shows "getlines (a @ b) = getlines a @ getlines b"
proof (cases "a = []")
  case True
  then show ?thesis by (simp add: getlines_Nil)
next
  case False
  with assms have "a = butlast a @ [newline]" by (metis append_butlast_last_id)
  then obtain a' where a: "a = a' @ [newline]" ..
  show ?thesis unfolding a using getlines_split [of a' b] by simp
qed

lemma reread_keeps:
  assumes "(k, v) \<in> set m" "is_word k" "is_word v"
  shows "map_of (fold index_line (getlines (index_text m)) []) k \<noteq> None"
proof -
  from assms(1) obtain xs ys where m: "m = xs @ (k, v) # ys" by (meson split_list)
  have nl: "newline \<notin> set (k @ '' '' @ v)"
    using is_word_no_newline [OF assms(2)] is_word_no_newline [OF assms(3)]
    by (simp add: newline_def)
  have "index_text m = index_text xs @ (k @ '' '' @ v) @ newline # index_text ys"
    unfolding m index_text_append index_text_Cons by simp
  then have "getlines (index_text m)
      = getlines (index_text xs) @ (k @ '' '' @ v) # getlines (index_text ys)"
    using getlines_append [OF index_text_ends [of xs]] getlines_line [OF nl] by simp
  moreover have "map_of (index_line (k @ '' '' @ v) acc) k \<noteq> None" for acc
    using extract_pair_words [OF assms(2,3)] by (simp add: index_line_def map_of_map_put)
  ultimately show ?thesis by (simp add: fold_index_line_keeps)
qed

text \<open>
  Claim C10, as amended.  Every call of \<^verbatim>\<open>add\<close>, whether it returns or raises, leaves
  the HEAD file as it was and removes no entry from the staging index.  When no argument
  has white space in it, the call also leaves every index entry whose file name is not
  an argument unchanged, and an entry that is new or changed belongs to an argument that
  was a regular file when the loop reached it (a file of the initial state, or an object
  file the same call created), with the hash of that file's content.
\<close>

theorem add_frame:
  assumes r: "r = add hasher filenames fs"
  shows "node (after r) HEAD_FILE = node fs HEAD_FILE \<and> getHEAD (after r) = getHEAD fs \<and>
     (\<forall>k. map_of (getStagingArea fs) k \<noteq> None \<longrightarrow> map_of (getStagingArea (after r)) k \<noteq> None) \<and>
     ((\<forall>f \<in> set filenames. \<forall>c \<in> set f. \<not> isspace c) \<longrightarrow>
        (\<forall>k. k \<notin> set filenames \<longrightarrow>
           map_of (getStagingArea (after r)) k = map_of (getStagingArea fs) k) \<and>
        (\<forall>k v. map_of (getStagingArea (after r)) k = Some v \<and> map_of (getStagingArea fs) k \<noteq> Some v
           \<longrightarrow> k \<in> set filenames \<and> k \<noteq> [] \<and>
               (\<exists>c. v = hashString hasher c \<and>
                  (node fs k = File c \<or>
                   (node fs k = Missing \<and> k = path_append OBJECTS_DIR v)))))"
proof -
  define L where "L = add_loop hasher filenames (getStagingArea fs) fs"
  define staged0 where "staged0 = getStagingArea fs"
  define staged' where "staged' = loop_staged L"
  define fs' where "fs' = loop_fs L"
  have g: "grows hasher fs fs'"
    unfolding fs'_def L_def by (rule add_loop_grows)
  note flags = grows_flags [OF g]
  note repo = grows_repo_files [OF g]
  have old: "getStagingArea fs' = staged0"
    unfolding staged0_def using repo(2) flags by (intro getStagingArea_same) simp_all
  have after: "after r = (if loop_raised L = None then setStagingArea fs' staged' else fs')"
    unfolding r L_def staged'_def fs'_def by (rule add_outcome(3))
  have gm0: "good_map staged0" unfolding staged0_def by (rule good_map_getStagingArea)
  have new: "map_of staged0 k = Some v \<or>
      (k \<in> set filenames \<and> k \<noteq> [] \<and> (\<exists>c. node fs' k = File c \<and> v = hashString hasher c))"
    if "map_of staged' k = Some v" for k v
    using add_loop_new [of hasher filenames "getStagingArea fs" fs k v] that
    unfolding staged'_def fs'_def L_def staged0_def by simp
  have keep: "map_of staged' k \<noteq> None" if "map_of staged0 k \<noteq> None" for k
    using add_loop_old [of "getStagingArea fs" k hasher filenames fs] that
    unfolding staged'_def L_def staged0_def by simp
  have other: "map_of staged' k = map_of staged0 k" if "k \<notin> set filenames" for k
    using add_loop_other [OF that, of hasher "getStagingArea fs" fs]
    unfolding staged'_def L_def staged0_def by simp
  have 1: "node (after r) HEAD_FILE = node fs HEAD_FILE"
    unfolding after using repo(1) by (simp add: node_setStagingArea HEAD_INDEX_distinct)
  have "can_read (after r) = can_read fs" unfolding after using flags by simp
  with 1 have 2: "getHEAD (after r) = getHEAD fs" by (intro getHEAD_same) simp_all
  have "getStagingArea (after r) = staged0 \<or>
      getStagingArea (after r) = fold index_line (getlines (index_text staged')) []"
  proof (cases "loop_raised L = None \<and> ofstream_open fs' INDEX_FILE \<and> can_read fs' INDEX_FILE")
    case True
    then show ?thesis unfolding after by (simp add: getStagingArea_saved)
  next
    case False
    then have "getStagingArea (after r) = getStagingArea fs'"
      unfolding after by (auto simp: getStagingArea_saved)
    with old show ?thesis by simp
  qed
  then consider (same) "getStagingArea (after r) = staged0"
    | (saved) "getStagingArea (after r) = fold index_line (getlines (index_text staged')) []"
    by blast
  note X = this
  have 3: "map_of (getStagingArea (after r)) k \<noteq> None" if k: "map_of staged0 k \<noteq> None" for k
  proof (cases rule: X)
    case same
    then show ?thesis using k by simp
  next
    case saved
    from k obtain v where v: "map_of staged0 k = Some v" by auto
    then have "(k, v) \<in> set staged0" by (rule map_of_SomeD)
    with gm0 have w: "is_word k" "is_word v" by (auto simp: good_map_def words_only_def)
    from keep [OF k] obtain v' where v': "map_of staged' k = Some v'" by auto
    from new [OF v'] v w(2) have "is_word v'"
      using is_hex_is_word [OF is_hex_hashString] by auto
    from reread_keeps [OF map_of_SomeD [OF v'] w(1) this] saved show ?thesis by simp
  qed
  have rt: "fold index_line (getlines (index_text staged')) [] = staged'"
    if ws: "\<forall>f \<in> set filenames. \<forall>c \<in> set f. \<not> isspace c"
  proof -
    have "good_map staged'"
      using gm0 ws add_loop_is_map [of "getStagingArea fs" hasher filenames fs]
        add_loop_words [of "getStagingArea fs" filenames hasher fs]
      unfolding good_map_def staged'_def L_def staged0_def by simp
    then show ?thesis by (rule index_roundtrip)
  qed
  have 4: "map_of (getStagingArea (after r)) k = map_of staged0 k"
    if ws: "\<forall>f \<in> set filenames. \<forall>c \<in> set f. \<not> isspace c" and k: "k \<notin> set filenames" for k
    by (cases rule: X) (simp_all add: rt [OF ws] other [OF k])
  have 5: "k \<in> set filenames \<and> k \<noteq> [] \<and>
               (\<exists>c. v = hashString hasher c \<and>
                  (node fs k = File c \<or> (node fs k = Missing \<and> k = path_append OBJECTS_DIR v)))"
    if ws: "\<forall>f \<in> set filenames. \<forall>c \<in> set f. \<not> isspace c"
      and kv: "map_of (getStagingArea (after r)) k = Some v" "map_of staged0 k \<noteq> Some v" for k v
  proof -
    from kv have "map_of staged' k = Some v"
      by (cases rule: X) (simp_all add: rt [OF ws])
    from new [OF this] kv(2) obtain c where
      c: "k \<in> set filenames" "k \<noteq> []" "node fs' k = File c" "v = hashString hasher c"
      by auto
    from g c(3) have "node fs k = File c \<or>
        (node fs k = Missing \<and> (\<exists>c'. k = path_append OBJECTS_DIR (hashString hasher c') \<and> node fs' k = File c'))"
      unfolding grows_def by metis
    with c show ?thesis by auto
  qed
  show ?thesis
    using 1 2 3 4 5 unfolding staged0_def by blast
qed

theorem add_frame_witness:
  "node (after (add length_hasher [''a.txt'', ''nope'', ''docs''] indexed_repo)) HEAD_FILE
     = node indexed_repo HEAD_FILE \<and>
   getHEAD (after (add length_hasher [''a.txt'', ''nope'', ''docs''] indexed_repo))
     = getHEAD indexed_repo \<and>
   map_of (getStagingArea indexed_repo) ''b.txt'' = Some ''7'' \<and>
   list_all (\<lambda>f. list_all (\<lambda>c. \<not> isspace c) f) [''a.txt'', ''nope'', ''docs''] \<and>
   ''b.txt'' \<notin> set [''a.txt'', ''nope'', ''docs''] \<and>
   map_of (getStagingArea (after (add length_hasher [''a.txt'', ''nope'', ''docs''] indexed_repo))) ''b.txt''
     = Some ''7'' \<and>
   map_of (getStagingArea (after (add length_hasher [''a.txt'', ''nope'', ''docs''] indexed_repo))) ''a.txt''
     = Some ''5'' \<and>
   map_of (getStagingArea indexed_repo) ''a.txt'' \<noteq> Some ''5'' \<and>
   (\<exists>c. ''5'' = hashString length_hasher c \<and>
      (node indexed_repo ''a.txt'' = File c \<or>
       (node indexed_repo ''a.txt'' = Missing \<and> ''a.txt'' = path_append OBJECTS_DIR ''5'')))"
proof -
  let ?r = "add length_hasher [''a.txt'', ''nope'', ''docs''] indexed_repo"
  have 1: "map_of (getStagingArea indexed_repo) ''b.txt'' = Some ''7''"
    "map_of (getStagingArea indexed_repo) ''a.txt'' \<noteq> Some ''5''"
    by code_simp+
  have 2: "list_all (\<lambda>f. list_all (\<lambda>c. \<not> isspace c) f) [''a.txt'', ''nope'', ''docs'']"
    by code_simp
  then have ws: "\<forall>f \<in> set [''a.txt'', ''nope'', ''docs'']. \<forall>c \<in> set f. \<not> isspace c"
    unfolding list_all_iff .
  have 3: "''b.txt'' \<notin> set [''a.txt'', ''nope'', ''docs'']"
    by simp
  have 4: "map_of (getStagingArea (after ?r)) ''a.txt'' = Some ''5''"
    by code_simp
  note t = add_frame [OF refl, of length_hasher "[''a.txt'', ''nope'', ''docs'']" indexed_repo]
  from t have a: "node (after ?r) HEAD_FILE = node indexed_repo HEAD_FILE"
    "getHEAD (after ?r) = getHEAD indexed_repo"
    by blast+
  from t ws 3 have "map_of (getStagingArea (after ?r)) ''b.txt'' = map_of (getStagingArea indexed_repo) ''b.txt''"
    by blast
  with 1 have b: "map_of (getStagingArea (after ?r)) ''b.txt'' = Some ''7''" by simp
  from t ws 4 1(2) have c: "\<exists>c. ''5'' = hashString length_hasher c \<and>
      (node indexed_repo ''a.txt'' = File c \<or>
       (node indexed_repo ''a.txt'' = Missing \<and> ''a.txt'' = path_append OBJECTS_DIR ''5''))"
    by blast
  from 1 2 3 4 a b c show ?thesis by blast
qed

text \<open>
  Claim C10 as stated fails for an argument with a space in its name: after
  \<^verbatim>\<open>add "my file.txt"\<close> the index line \<^verbatim>\<open>my file.txt 1\<close> is read back as the entry
  \<^verbatim>\<open>my -> file.txt\<close>, which replaces the staged entry of the file \<^verbatim>\<open>my\<close>, not an argument.
\<close>

theorem add_frame_counterexample:
  "''my'' \<notin> set [''my file.txt''] \<and>
   map_of (getStagingArea spaced_repo) ''my'' = Some ''abc'' \<and>
   map_of (getStagingArea (after (add length_hasher [''my file.txt''] spaced_repo))) ''my''
     = Some ''file.txt''"
  by code_simp












subsection \<open>Claims about a missing commit object\<close>

lemma readFileContent_exists: "readFileContent fs p = Inr c \<Longrightarrow> fs_exists fs p"
  by (simp add: readFileContent_Inr fs_exists_def)

lemma log_walk_missing:
  "walk_to_missing fs h cs m \<Longrightarrow>
   log_walk fs h = Some (map (\<lambda>(h, msg). CommitEntry h msg) cs @ [FatalMissingCommit m], None)"
proof (induction rule: walk_to_missing.induct)
  case (stop h)
  then show ?case by (subst log_walk.simps) simp
next
  case (step h content cs m)
  from step(1,2,4) readFileContent_exists [OF step(2)] show ?case
    by (subst log_walk.simps) (simp add: say_def)
qed

text \<open>
  Claim C8.  When the walk of \<^verbatim>\<open>log\<close> from a commit passes the readable commits \<open>cs\<close> and
  then reaches a hash whose object file does not exist, the walk ends there: \<^verbatim>\<open>log\<close>
  returns, having printed exactly the entries of \<open>cs\<close>, youngest first, followed by the
  report of the missing object, and nothing after it.  \<^verbatim>\<open>getCommitFiles\<close> on a non-empty
  hash whose object file does not exist raises "Cannot find commit object".
\<close>

theorem log_missing_object:
  "(walk_to_missing fs h cs m \<longrightarrow>
      log_walk fs h = Some (map (\<lambda>(h, msg). CommitEntry h msg) cs @ [FatalMissingCommit m], None)) \<and>
   (getHEAD fs = Inr h \<and> walk_to_missing fs h cs m \<longrightarrow>
      log fs = Some (map (\<lambda>(h, msg). CommitEntry h msg) cs @ [FatalMissingCommit m], None, fs)) \<and>
   (h \<noteq> [] \<and> \<not> fs_exists fs (path_append OBJECTS_DIR h) \<longrightarrow>
      getCommitFiles fs h = Inl (CannotFindCommit h))"
proof -
  have "h \<noteq> []" if "walk_to_missing fs h cs m"
    using that by (cases rule: walk_to_missing.cases) auto
  then show ?thesis
    by (auto simp: log_walk_missing log_def getCommitFiles_def)
qed

theorem log_missing_object_witness:
  "walk_to_missing broken_chain ''26'' [(''26'', ''second'')] ''99'' \<and>
   log_walk broken_chain ''26''
     = Some ([CommitEntry ''26'' ''second'', FatalMissingCommit ''99''], None) \<and>
   getHEAD broken_chain = Inr ''26'' \<and>
   log broken_chain
     = Some ([CommitEntry ''26'' ''second'', FatalMissingCommit ''99''], None, broken_chain) \<and>
   \<not> fs_exists broken_chain (path_append OBJECTS_DIR ''99'') \<and>
   getCommitFiles broken_chain ''99'' = Inl (CannotFindCommit ''99'')"
proof -
  let ?content = "''parent: 99\<newline>message: second\<newline>file: a.txt 5\<newline>''"
  have 1: "\<not> fs_exists broken_chain (path_append OBJECTS_DIR ''99'')"
    by code_simp
  have 2: "readFileContent broken_chain (path_append OBJECTS_DIR ''26'') = Inr ?content"
    by code_simp
  have 3: "fst (fold log_line (getlines ?content) ([], [])) = ''99''"
    "snd (fold log_line (getlines ?content) ([], [])) = ''second''"
    by code_simp+
  have 4: "getHEAD broken_chain = Inr ''26''"
    by code_simp
  have "walk_to_missing broken_chain ''99'' [] ''99''"
    by (rule walk_to_missing.stop) (simp_all add: 1)
  then have "walk_to_missing broken_chain (fst (fold log_line (getlines ?content) ([], []))) [] ''99''"
    by (simp only: 3)
  from walk_to_missing.step [OF _ 2 this]
  have 5: "walk_to_missing broken_chain ''26'' [(''26'', ''second'')] ''99''"
    by (simp add: 3)
  from log_missing_object [of broken_chain "''26''" "[(''26'', ''second'')]" "''99''"]
    log_missing_object [of broken_chain "''99''" "[]" "''99''"] 1 4 5
  show ?thesis by simp
qed

subsection \<open>Claims about the snapshot of a commit\<close>

lemma commitFilesFor_merge:
  assumes "commitFilesFor fs parent staged = Inr files" "is_map staged"
  obtains inherited where
    "if parent = [] then inherited = [] else getCommitFiles fs parent = Inr inherited"
    "files = fold (\<lambda>(filename, hash). map_put filename hash) staged inherited"
    "map_of files = map_of inherited ++ map_of staged"
proof -
  from assms(1) obtain inherited where
    inh: "(if parent \<noteq> [] then getCommitFiles fs parent else Inr []) = Inr inherited"
    and files: "files = fold (\<lambda>(filename, hash). map_put filename hash) staged inherited"
    by (auto simp: commitFilesFor_def split: sum.splits)
  from inh have 1: "if parent = [] then inherited = [] else getCommitFiles fs parent = Inr inherited"
    by (auto split: if_splits)
  have 2: "map_of files = map_of inherited ++ map_of staged"
    unfolding files using is_map_distinct [OF assms(2)] by (rule map_of_fold_put_distinct)
  from that [OF 1 files 2] show ?thesis .
qed

lemma getCommitFiles_read:
  assumes "h \<noteq> []" "node fs (path_append OBJECTS_DIR h) = File content"
    "can_read fs (path_append OBJECTS_DIR h)"
  shows "getCommitFiles fs h = Inr (fold commit_file_line (getlines content) [])"
proof -
  have "path_append OBJECTS_DIR h \<noteq> []"
    by (auto simp: path_append_def OBJECTS_DIR_eq)
  with assms show ?thesis
    by (simp add: getCommitFiles_def Let_def fs_exists_def readFileContent_def ifstream_open_def)
qed

lemma commit_snapshot:
  assumes ok: "raised (commit hasher message fs) = None" and staged: "getStagingArea fs \<noteq> []"
  shows "\<exists>parent inherited files h.
     getHEAD fs = Inr parent \<and>
     (if parent = [] then inherited = [] else getCommitFiles fs parent = Inr inherited) \<and>
     snapshot_of fs = Inr files \<and> is_map files \<and>
     map_of files = map_of inherited ++ map_of (getStagingArea fs) \<and>
     printed (commit hasher message fs) = [Committed h message] \<and>
     node (after (commit hasher message fs)) HEAD_FILE = File h \<and>
     node (after (commit hasher message fs)) (path_append OBJECTS_DIR h)
       = File (commitString parent message files) \<and>
     (can_read fs (path_append OBJECTS_DIR h) \<longrightarrow>
        (\<exists>stored. getCommitFiles (after (commit hasher message fs)) h = Inr stored \<and>
           (\<forall>k v. map_of files k = Some v \<longrightarrow> map_of stored k = Some v) \<and>
           (newline \<notin> set parent \<and> newline \<notin> set message \<longrightarrow> stored = files)))"
proof -
  from ok staged obtain parent files where
    head: "getHEAD fs = Inr parent"
    and files: "commitFilesFor fs parent (getStagingArea fs) = Inr files"
    and c: "commit hasher message fs =
       ([Committed (hashString hasher (commitString parent message files)) message], None,
        setStagingArea
          (put_file
             (put_file fs
                (path_append OBJECTS_DIR (hashString hasher (commitString parent message files)))
                (commitString parent message files))
             HEAD_FILE (hashString hasher (commitString parent message files))) [])"
    by (rule commit_success)
  define content where "content = commitString parent message files"
  define h where "h = hashString hasher content"
  have hx: "is_hex h" unfolding h_def by (rule is_hex_hashString)
  have gs: "is_map (getStagingArea fs)"
    using good_map_getStagingArea [of fs] by (simp add: good_map_def)
  from commitFilesFor_merge [OF files gs] obtain inherited where
    inh: "if parent = [] then inherited = [] else getCommitFiles fs parent = Inr inherited"
    and merge: "map_of files = map_of inherited ++ map_of (getStagingArea fs)"
    by blast
  have gm: "good_map files" by (rule good_map_commitFilesFor [OF files])
  have snap: "snapshot_of fs = Inr files" by (simp add: snapshot_of_def head files)
  note nodes = node_after_commit [OF hx, of fs content "[]"]
  have c': "commit hasher message fs = ([Committed h message], None,
      setStagingArea (put_file (put_file fs (path_append OBJECTS_DIR h) content) HEAD_FILE h) [])"
    using c by (simp add: h_def content_def)
  have reread: "\<exists>stored. getCommitFiles (after (commit hasher message fs)) h = Inr stored \<and>
           (\<forall>k v. map_of files k = Some v \<longrightarrow> map_of stored k = Some v) \<and>
           (newline \<notin> set parent \<and> newline \<notin> set message \<longrightarrow> stored = files)"
    if rd: "can_read fs (path_append OBJECTS_DIR h)"
  proof -
    have "h \<noteq> []" using hx by (simp add: is_hex_def)
    from getCommitFiles_read [OF this, of "after (commit hasher message fs)" content]
    have "getCommitFiles (after (commit hasher message fs)) h
        = Inr (fold commit_file_line (getlines content) [])"
      using nodes(1) rd unfolding c' by simp
    then show ?thesis
      using read_commitString_lookup [OF gm] read_commitString_exact [OF gm]
      unfolding content_def by auto
  qed
  have im: "is_map files" using gm by (simp add: good_map_def)
  have p1: "printed (commit hasher message fs) = [Committed h message]"
    by (simp add: c')
  have p2: "node (after (commit hasher message fs)) HEAD_FILE = File h"
    using nodes(2) by (simp add: c')
  have p3: "node (after (commit hasher message fs)) (path_append OBJECTS_DIR h)
      = File (commitString parent message files)"
    using nodes(1) by (simp add: c' content_def)
  from head inh snap im merge p1 p2 p3 reread show ?thesis by blast
qed

lemma index_after_add:
  "getStagingArea (after (add hasher names fs)) = getStagingArea fs \<or>
   getStagingArea (after (add hasher names fs))
     = fold index_line
         (getlines (index_text (loop_staged (add_loop hasher names (getStagingArea fs) fs)))) []"
proof -
  define L where "L = add_loop hasher names (getStagingArea fs) fs"
  have g: "grows hasher fs (loop_fs L)" unfolding L_def by (rule add_loop_grows)
  have old: "getStagingArea (loop_fs L) = getStagingArea fs"
    using grows_repo_files(2) [OF g] grows_flags [OF g] by (intro getStagingArea_same) simp_all
  have after: "after (add hasher names fs)
      = (if loop_raised L = None then setStagingArea (loop_fs L) (loop_staged L) else loop_fs L)"
    unfolding L_def by (rule add_outcome(3))
  show ?thesis
  proof (cases "loop_raised L = None \<and> ofstream_open (loop_fs L) INDEX_FILE
      \<and> can_read (loop_fs L) INDEX_FILE")
    case True
    then show ?thesis unfolding after L_def [symmetric] by (simp add: getStagingArea_saved)
  next
    case False
    then have "getStagingArea (after (add hasher names fs)) = getStagingArea (loop_fs L)"
      unfolding after by (auto simp: getStagingArea_saved)
    with old show ?thesis by simp
  qed
qed

lemma add_keeps:
  assumes "node fs p \<noteq> Missing" "p \<noteq> INDEX_FILE"
  shows "node (after (add hasher names fs)) p = node fs p"
    and "can_read (after (add hasher names fs)) = can_read fs"
proof -
  define L where "L = add_loop hasher names (getStagingArea fs) fs"
  have g: "grows hasher fs (loop_fs L)" unfolding L_def by (rule add_loop_grows)
  have after: "after (add hasher names fs)
      = (if loop_raised L = None then setStagingArea (loop_fs L) (loop_staged L) else loop_fs L)"
    unfolding L_def by (rule add_outcome(3))
  show "node (after (add hasher names fs)) p = node fs p"
    unfolding after using grows_kept [OF g assms(1)] assms(2) by (simp add: node_setStagingArea)
  show "can_read (after (add hasher names fs)) = can_read fs"
    unfolding after using grows_flags [OF g] by simp
qed

lemma two_commits:
  assumes r1: "r1 = commit hasher m1 fs0" and ok1: "raised r1 = None"
    and a: "map_of (getStagingArea fs0) A = Some hA"
    and r2: "r2 = add hasher [B] (after r1)"
    and b: "map_of (getStagingArea (after r2)) B = Some hB" and ab: "A \<noteq> B"
    and r3: "r3 = commit hasher m2 (after r2)" and ok3: "raised r3 = None"
  shows "\<exists>h1 h2 files2.
     printed r1 = [Committed h1 m1] \<and> printed r3 = [Committed h2 m2] \<and>
     node (after r3) (path_append OBJECTS_DIR h2) = File (commitString h1 m2 files2) \<and>
     map_of files2 A = Some hA \<and> map_of files2 B = Some hB"
proof -
  \<comment> \<open>the first commit\<close>
  from a have staged0: "getStagingArea fs0 \<noteq> []" by auto
  from ok1 staged0 obtain parent1 files1 where
    files1: "commitFilesFor fs0 parent1 (getStagingArea fs0) = Inr files1"
    and c1: "commit hasher m1 fs0 =
       ([Committed (hashString hasher (commitString parent1 m1 files1)) m1], None,
        setStagingArea
          (put_file
             (put_file fs0
                (path_append OBJECTS_DIR (hashString hasher (commitString parent1 m1 files1)))
                (commitString parent1 m1 files1))
             HEAD_FILE (hashString hasher (commitString parent1 m1 files1))) [])"
    unfolding r1 by (rule commit_success)
  define t1 where "t1 = commitString parent1 m1 files1"
  define h1 where "h1 = hashString hasher t1"
  define fsx where "fsx = put_file (put_file fs0 (path_append OBJECTS_DIR h1) t1) HEAD_FILE h1"
  define fs1 where "fs1 = after r1"
  have hx1: "is_hex h1" unfolding h1_def by (rule is_hex_hashString)
  note pf1 = object_path_facts [OF hx1]
  have fs1: "fs1 = setStagingArea fsx []"
    unfolding fs1_def fsx_def r1 c1 h1_def t1_def by simp
  have p1: "printed r1 = [Committed h1 m1]"
    unfolding r1 c1 h1_def t1_def by simp
  have gs0: "is_map (getStagingArea fs0)"
    using good_map_getStagingArea [of fs0] by (simp add: good_map_def)
  from files1 gs0 obtain inherited1 where
    "map_of files1 = map_of inherited1 ++ map_of (getStagingArea fs0)"
    by (rule commitFilesFor_merge)
  with a have fa: "map_of files1 A = Some hA"
    by (simp add: map_add_Some_iff)
  have gm1: "good_map files1" by (rule good_map_commitFilesFor [OF files1])
  have n1: "node fs1 (path_append OBJECTS_DIR h1) = File t1" "node fs1 HEAD_FILE = File h1"
    unfolding fs1 fsx_def by (rule node_after_commit [OF hx1])+
  have "getStagingArea fsx = getStagingArea fs0"
    unfolding fsx_def using pf1
    by (intro getStagingArea_same) (simp_all add: node_put_file HEAD_INDEX_distinct)
  then have i1: "getStagingArea fs1 = [] \<or> getStagingArea fs1 = getStagingArea fs0"
    unfolding fs1 by (simp add: getStagingArea_saved index_text_Nil getlines_Nil)
  \<comment> \<open>staging \<open>B\<close>\<close>
  define fs2 where "fs2 = after r2"
  define staged' where "staged' = loop_staged (add_loop hasher [B] (getStagingArea fs1) fs1)"
  have gm2: "good_map (getStagingArea fs2)" by (rule good_map_getStagingArea)
  from b have "(B, hB) \<in> set (getStagingArea fs2)"
    unfolding fs2_def by (rule map_of_SomeD)
  with gm2 have wb: "is_word B" by (auto simp: good_map_def words_only_def)
  have "good_map staged'"
    using good_map_getStagingArea [of fs1] wb
      add_loop_is_map [of "getStagingArea fs1" hasher "[B]" fs1]
      add_loop_words [of "getStagingArea fs1" "[B]" hasher fs1]
    unfolding good_map_def staged'_def by (simp add: is_word_def)
  then have rt: "fold index_line (getlines (index_text staged')) [] = staged'"
    by (rule index_roundtrip)
  have sa: "map_of staged' A = map_of (getStagingArea fs1) A"
    unfolding staged'_def using ab by (intro add_loop_other) simp
  from index_after_add [of hasher "[B]" fs1] rt sa
  have "map_of (getStagingArea fs2) A = map_of (getStagingArea fs1) A"
    unfolding fs2_def r2 fs1_def [symmetric] staged'_def [symmetric] by auto
  with i1 a have i2: "map_of (getStagingArea fs2) A = None \<or> map_of (getStagingArea fs2) A = Some hA"
    by auto
  have n2: "node fs2 HEAD_FILE = File h1" "node fs2 (path_append OBJECTS_DIR h1) = File t1"
    unfolding fs2_def r2 fs1_def [symmetric]
    using add_keeps(1) [of fs1 HEAD_FILE hasher "[B]"]
      add_keeps(1) [of fs1 "path_append OBJECTS_DIR h1" hasher "[B]"] n1 pf1
    by (simp_all add: HEAD_INDEX_distinct)
  \<comment> \<open>the second commit\<close>
  from b have staged2: "getStagingArea fs2 \<noteq> []" unfolding fs2_def by auto
  from ok3 staged2 obtain parent2 files2 where
    head2: "getHEAD fs2 = Inr parent2"
    and files2: "commitFilesFor fs2 parent2 (getStagingArea fs2) = Inr files2"
    and c3: "commit hasher m2 fs2 =
       ([Committed (hashString hasher (commitString parent2 m2 files2)) m2], None,
        setStagingArea
          (put_file
             (put_file fs2
                (path_append OBJECTS_DIR (hashString hasher (commitString parent2 m2 files2)))
                (commitString parent2 m2 files2))
             HEAD_FILE (hashString hasher (commitString parent2 m2 files2))) [])"
    unfolding r3 fs2_def [symmetric] by (rule commit_success)
  from head2 n2(1) have par: "parent2 = h1"
    by (auto simp: getHEAD_def fs_exists_def readFileContent_def ifstream_open_def
        HEAD_INDEX_distinct split: if_splits)
  have ne1: "h1 \<noteq> []" using hx1 by (simp add: is_hex_def)
  have gs2: "is_map (getStagingArea fs2)"
    using gm2 by (simp add: good_map_def)
  from files2 gs2 obtain inherited2 where
    "if parent2 = [] then inherited2 = [] else getCommitFiles fs2 parent2 = Inr inherited2"
    and m2: "map_of files2 = map_of inherited2 ++ map_of (getStagingArea fs2)"
    by (rule commitFilesFor_merge)
  with par ne1 have inh2: "getCommitFiles fs2 h1 = Inr inherited2" by simp
  from inh2 n2(2) ne1 have i2t: "inherited2 = fold commit_file_line (getlines t1) []"
    by (auto simp: getCommitFiles_def Let_def readFileContent_def ifstream_open_def
        split: if_splits)
  have ia: "map_of inherited2 A = Some hA"
    unfolding i2t t1_def by (rule read_commitString_lookup [OF gm1 fa])
  have fA: "map_of files2 A = Some hA"
    unfolding m2 using ia i2 by (auto simp: map_add_Some_iff)
  have fB: "map_of files2 B = Some hB"
    unfolding m2 using b by (simp add: fs2_def)
  define h2 where "h2 = hashString hasher (commitString h1 m2 files2)"
  have hx2: "is_hex h2" unfolding h2_def by (rule is_hex_hashString)
  have p3: "printed r3 = [Committed h2 m2]"
    unfolding r3 fs2_def [symmetric] c3 par h2_def by simp
  have n3: "node (after r3) (path_append OBJECTS_DIR h2) = File (commitString h1 m2 files2)"
    unfolding r3 fs2_def [symmetric] c3 par h2_def [symmetric]
    using node_after_commit(1) [OF hx2] by simp
  from p1 p3 n3 fA fB show ?thesis by blast
qed

text \<open>
  Claim C1.  In a successful commit on a non-empty index, the file map written into the
  new commit object is the map \<^verbatim>\<open>getCommitFiles\<close> gives for the parent named by HEAD (the
  empty map when HEAD is empty) with every entry of the staging index put on top of it;
  read back from the store, the new object contains every entry of that map, and exactly
  that map when parent and message hold no newline.  Hence, for a successful commit that
  had \<open>A\<close> staged, followed by \<^verbatim>\<open>add\<close> of the single name \<open>B\<close> after which \<open>B\<close> is staged,
  and by a second successful commit, the file map of the second commit object holds
  \<open>A\<close> with the hash it was staged with and \<open>B\<close> with the hash staged for it.
\<close>

theorem commit_snapshot_cumulative:
  "(raised (commit hasher message fs) = None \<and> getStagingArea fs \<noteq> [] \<longrightarrow>
     (\<exists>parent inherited files h.
       getHEAD fs = Inr parent \<and>
       (if parent = [] then inherited = [] else getCommitFiles fs parent = Inr inherited) \<and>
       snapshot_of fs = Inr files \<and> is_map files \<and>
       map_of files = map_of inherited ++ map_of (getStagingArea fs) \<and>
       printed (commit hasher message fs) = [Committed h message] \<and>
       node (after (commit hasher message fs)) HEAD_FILE = File h \<and>
       node (after (commit hasher message fs)) (path_append OBJECTS_DIR h)
         = File (commitString parent message files) \<and>
       (can_read fs (path_append OBJECTS_DIR h) \<longrightarrow>
          (\<exists>stored. getCommitFiles (after (commit hasher message fs)) h = Inr stored \<and>
             (\<forall>k v. map_of files k = Some v \<longrightarrow> map_of stored k = Some v) \<and>
             (newline \<notin> set parent \<and> newline \<notin> set message \<longrightarrow> stored = files))))) \<and>
   (r1 = commit hasher m1 fs0 \<and>
    raised r1 = None \<and>
    map_of (getStagingArea fs0) A = Some hA \<and>
    r2 = add hasher [B] (after r1) \<and>
    map_of (getStagingArea (after r2)) B = Some hB \<and>
    A \<noteq> B \<and>
    r3 = commit hasher m2 (after r2) \<and>
    raised r3 = None \<longrightarrow>
     (\<exists>h1 h2 files2.
       printed r1 = [Committed h1 m1] \<and> printed r3 = [Committed h2 m2] \<and>
       node (after r3) (path_append OBJECTS_DIR h2) = File (commitString h1 m2 files2) \<and>
       map_of files2 A = Some hA \<and> map_of files2 B = Some hB))"
proof (intro conjI impI)
  assume "raised (commit hasher message fs) = None \<and> getStagingArea fs \<noteq> []"
  then show "(\<exists>parent inherited files h.
       getHEAD fs = Inr parent \<and>
       (if parent = [] then inherited = [] else getCommitFiles fs parent = Inr inherited) \<and>
       snapshot_of fs = Inr files \<and> is_map files \<and>
       map_of files = map_of inherited ++ map_of (getStagingArea fs) \<and>
       printed (commit hasher message fs) = [Committed h message] \<and>
       node (after (commit hasher message fs)) HEAD_FILE = File h \<and>
       node (after (commit hasher message fs)) (path_append OBJECTS_DIR h)
         = File (commitString parent message files) \<and>
       (can_read fs (path_append OBJECTS_DIR h) \<longrightarrow>
          (\<exists>stored. getCommitFiles (after (commit hasher message fs)) h = Inr stored \<and>
             (\<forall>k v. map_of files k = Some v \<longrightarrow> map_of stored k = Some v) \<and>
             (newline \<notin> set parent \<and> newline \<notin> set message \<longrightarrow> stored = files))))"
    using commit_snapshot [of hasher message fs] by blast
next
  assume "r1 = commit hasher m1 fs0 \<and>
    raised r1 = None \<and>
    map_of (getStagingArea fs0) A = Some hA \<and>
    r2 = add hasher [B] (after r1) \<and>
    map_of (getStagingArea (after r2)) B = Some hB \<and>
    A \<noteq> B \<and>
    r3 = commit hasher m2 (after r2) \<and>
    raised r3 = None"
  then show "(\<exists>h1 h2 files2.
       printed r1 = [Committed h1 m1] \<and> printed r3 = [Committed h2 m2] \<and>
       node (after r3) (path_append OBJECTS_DIR h2) = File (commitString h1 m2 files2) \<and>
       map_of files2 A = Some hA \<and> map_of files2 B = Some hB)"
    using two_commits [of r1 hasher m1 fs0 A hA r2 B hB r3 m2] by blast
qed

theorem commit_snapshot_cumulative_witness:
  "raised (commit length_hasher ''first'' noted_repo) = None \<and> getStagingArea noted_repo \<noteq> [] \<and>
   (\<exists>parent inherited files h.
       getHEAD noted_repo = Inr parent \<and>
       (if parent = [] then inherited = [] else getCommitFiles noted_repo parent = Inr inherited) \<and>
       snapshot_of noted_repo = Inr files \<and> is_map files \<and>
       map_of files = map_of inherited ++ map_of (getStagingArea noted_repo) \<and>
       printed (commit length_hasher ''first'' noted_repo) = [Committed h ''first''] \<and>
       node (after (commit length_hasher ''first'' noted_repo)) HEAD_FILE = File h \<and>
       node (after (commit length_hasher ''first'' noted_repo)) (path_append OBJECTS_DIR h)
         = File (commitString parent ''first'' files) \<and>
       (can_read noted_repo (path_append OBJECTS_DIR h) \<longrightarrow>
          (\<exists>stored. getCommitFiles (after (commit length_hasher ''first'' noted_repo)) h = Inr stored \<and>
             (\<forall>k v. map_of files k = Some v \<longrightarrow> map_of stored k = Some v) \<and>
             (newline \<notin> set parent \<and> newline \<notin> set ''first'' \<longrightarrow> stored = files)))) \<and>
   raised (commit length_hasher ''first'' noted_repo) = None \<and>
   map_of (getStagingArea noted_repo) ''a.txt'' = Some ''5'' \<and>
   map_of (getStagingArea (after (add length_hasher [''notes.txt''] (after (commit length_hasher ''first'' noted_repo))))) ''notes.txt'' = Some ''8'' \<and>
   ''a.txt'' \<noteq> ''notes.txt'' \<and>
   raised (commit length_hasher ''second'' (after (add length_hasher [''notes.txt''] (after (commit length_hasher ''first'' noted_repo))))) = None \<and>
   (\<exists>h1 h2 files2.
       printed (commit length_hasher ''first'' noted_repo) = [Committed h1 ''first''] \<and> printed (commit length_hasher ''second'' (after (add length_hasher [''notes.txt''] (after (commit length_hasher ''first'' noted_repo))))) = [Committed h2 ''second''] \<and>
       node (after (commit length_hasher ''second'' (after (add length_hasher [''notes.txt''] (after (commit length_hasher ''first'' noted_repo)))))) (path_append OBJECTS_DIR h2) = File (commitString h1 ''second'' files2) \<and>
       map_of files2 ''a.txt'' = Some ''5'' \<and> map_of files2 ''notes.txt'' = Some ''8'')"
proof -
  have 1: "raised (commit length_hasher ''first'' noted_repo) = None \<and> getStagingArea noted_repo \<noteq> []"
    by code_simp+
  have 2: "raised (commit length_hasher ''first'' noted_repo) = None"
    "map_of (getStagingArea noted_repo) ''a.txt'' = Some ''5''"
    "map_of (getStagingArea (after (add length_hasher [''notes.txt''] (after (commit length_hasher ''first'' noted_repo))))) ''notes.txt'' = Some ''8''"
    "''a.txt'' \<noteq> ''notes.txt''"
    "raised (commit length_hasher ''second'' (after (add length_hasher [''notes.txt''] (after (commit length_hasher ''first'' noted_repo))))) = None"
    by code_simp+
  note t = commit_snapshot_cumulative [of length_hasher "''first''" noted_repo
      "commit length_hasher ''first'' noted_repo" "''first''" noted_repo "''a.txt''" "''5''"
      "add length_hasher [''notes.txt''] (after (commit length_hasher ''first'' noted_repo))" "''notes.txt''" "''8''"
      "commit length_hasher ''second'' (after (add length_hasher [''notes.txt''] (after (commit length_hasher ''first'' noted_repo))))" "''second''"]
  from t 1 have a: "(\<exists>parent inherited files h.
       getHEAD noted_repo = Inr parent \<and>
       (if parent = [] then inherited = [] else getCommitFiles noted_repo parent = Inr inherited) \<and>
       snapshot_of noted_repo = Inr files \<and> is_map files \<and>
       map_of files = map_of inherited ++ map_of (getStagingArea noted_repo) \<and>
       printed (commit length_hasher ''first'' noted_repo) = [Committed h ''first''] \<and>
       node (after (commit length_hasher ''first'' noted_repo)) HEAD_FILE = File h \<and>
       node (after (commit length_hasher ''first'' noted_repo)) (path_append OBJECTS_DIR h)
         = File (commitString parent ''first'' files) \<and>
       (can_read noted_repo (path_append OBJECTS_DIR h) \<longrightarrow>
          (\<exists>stored. getCommitFiles (after (commit length_hasher ''first'' noted_repo)) h = Inr stored \<and>
             (\<forall>k v. map_of files k = Some v \<longrightarrow> map_of stored k = Some v) \<and>
             (newline \<notin> set parent \<and> newline \<notin> set ''first'' \<longrightarrow> stored = files))))"
    by blast
  from t 2 have b: "(\<exists>h1 h2 files2.
       printed (commit length_hasher ''first'' noted_repo) = [Committed h1 ''first''] \<and> printed (commit length_hasher ''second'' (after (add length_hasher [''notes.txt''] (after (commit length_hasher ''first'' noted_repo))))) = [Committed h2 ''second''] \<and>
       node (after (commit length_hasher ''second'' (after (add length_hasher [''notes.txt''] (after (commit length_hasher ''first'' noted_repo)))))) (path_append OBJECTS_DIR h2) = File (commitString h1 ''second'' files2) \<and>
       map_of files2 ''a.txt'' = Some ''5'' \<and> map_of files2 ''notes.txt'' = Some ''8'')"
    by blast
  from 1 2 a b show ?thesis by blast
qed

end
